theory Spec2Isabelle
  imports Complex_Main "HOL-Library.Sublist" "HOL-Library.List_Lexorder" "HOL-Library.Char_ord"
    "HOL-Library.Log_Nat"
begin

section \<open>Strings: Python's \<open>in\<close> and \<open>lower\<close>\<close>

text \<open>
  Titles, ids and keywords are Python \<open>str\<close> values; they are modelled as \<open>string\<close>
  (a list of 8-bit characters), which covers the ASCII text of the keyword tables.
  \<open>kw in t\<close> on two strings is the test for a contiguous substring.
\<close>

fun startswith :: "string \<Rightarrow> string \<Rightarrow> bool" where
  "startswith t [] = True"
| "startswith [] (k # ks) = False"
| "startswith (c # cs) (k # ks) = (c = k \<and> startswith cs ks)"

fun str_in :: "string \<Rightarrow> string \<Rightarrow> bool" where
  "str_in kw [] = (kw = [])"
| "str_in kw (c # cs) = (startswith (c # cs) kw \<or> str_in kw cs)"

text \<open>\<open>str.lower\<close> on ASCII: the letters A to Z move to a to z, every other character stays.\<close>

definition lower_char :: "char \<Rightarrow> char" where
  "lower_char c =
     (if 65 \<le> (of_char c :: nat) \<and> (of_char c :: nat) \<le> 90
      then char_of (of_char c + (32 :: nat)) else c)"

definition lower :: "string \<Rightarrow> string" where
  "lower t = map lower_char t"

text \<open>\<open>any(kw in t for kw in kws)\<close>\<close>

definition any_in :: "string list \<Rightarrow> string \<Rightarrow> bool" where
  "any_in kws t = list_ex (\<lambda>kw. str_in kw t) kws"

section \<open>curate\_series.py\<close>

text \<open>
  A row of the correlation file is a JSON object. The keys \<open>n_dates\<close> and \<open>n_aligned\<close>
  may each be absent (current and legacy schema), so they are optional fields.
  \<open>abs_r\<close> and \<open>r\<close> are the decimal numbers the JSON text denotes, which
  compute\_correlations.py has rounded to six decimals. The curation only compares them
  with the constants 0.15, 0.1 and 0.3 and with each other; on decimals this short the
  comparison of the doubles is the comparison of the numbers, so the model compares reals.
\<close>

record row =
  row_id :: string
  title :: string
  r :: real
  abs_r :: real
  n_dates :: "int option"
  n_aligned :: "int option"

definition aligned_count :: "'a row_scheme \<Rightarrow> int" where
  "aligned_count c =
     (case n_dates c of Some n \<Rightarrow> n
      | None \<Rightarrow> (case n_aligned c of Some n \<Rightarrow> n | None \<Rightarrow> 0))"

definition reliable :: "'a row_scheme list \<Rightarrow> 'a row_scheme list" where
  "reliable all_corr = filter (\<lambda>c. aligned_count c \<ge> 20) all_corr"

text \<open>
  The deduplication loop, with its two variables \<open>seen_titles\<close> and \<open>deduped\<close> passed
  along; \<open>deduped\<close> is the value of the variable after the loop over the input.
\<close>

fun dedup_loop :: "'a row_scheme list \<Rightarrow> string set \<Rightarrow> 'a row_scheme list \<Rightarrow> 'a row_scheme list" where
  "dedup_loop [] seen_titles acc = acc"
| "dedup_loop (c # cs) seen_titles acc =
     (if title c \<notin> seen_titles
      then dedup_loop cs (insert (title c) seen_titles) (acc @ [c])
      else dedup_loop cs seen_titles acc)"

definition deduped :: "'a row_scheme list \<Rightarrow> 'a row_scheme list" where
  "deduped rows = dedup_loop rows {} []"

text \<open>
  The keyword tables of \<open>is_funny\<close> and \<open>is_interesting_financial\<close>. The first test
  reads the lower-cased title, the second the title as it is.
\<close>

definition funny_keywords :: "string list" where
  "funny_keywords =
     [''indeed'', ''job posting'', ''beauty'', ''wellness'', ''therapy'',
      ''nursing'', ''pharmacy'', ''coffee'', ''bitcoin'', ''crypto'',
      ''loading'', ''stocking'', ''installation'', ''maintenance'',
      ''scientific research'', ''real estate'', ''software development'',
      ''marketing'', ''insurance'', ''media'', ''human resources'',
      ''oregon'', ''west virginia'', ''tennessee'', ''maine'',
      ''australia'', ''germany'', ''france'', ''united kingdom'', ''canada'']"

definition is_funny :: "'a row_scheme \<Rightarrow> bool" where
  "is_funny c = (let t = lower (title c) in any_in funny_keywords t)"

definition interesting :: "string list" where
  "interesting =
     [''VIX'', ''High Yield Index Option-Adjusted Spread'',
      ''Policy Rate Uncertainty'', ''Breakeven Inflation'', ''10-Year Treasury'',
      ''Dollar Index'', ''Gold'', ''Nikkei'', ''SOFR'', ''Federal Funds'',
      ''Mortgage'', ''Swap'']"

definition is_interesting_financial :: "'a row_scheme \<Rightarrow> bool" where
  "is_interesting_financial c = (let t = title c in any_in interesting t)"

text \<open>
  The classification loop appends each row to at most one of the three lists
  \<open>funny_series\<close>, \<open>financial_series\<close>, \<open>other_series\<close>, by the \<open>if\<close>/\<open>elif\<close> chain.
\<close>

fun classify_loop ::
  "row list \<Rightarrow> row list \<times> row list \<times> row list \<Rightarrow> row list \<times> row list \<times> row list" where
  "classify_loop [] (funny_series, financial_series, other_series) =
     (funny_series, financial_series, other_series)"
| "classify_loop (c # cs) (funny_series, financial_series, other_series) =
     (if is_funny c \<and> abs_r c > 0.15
        then classify_loop cs (funny_series @ [c], financial_series, other_series)
      else if is_interesting_financial c \<and> abs_r c > 0.1
        then classify_loop cs (funny_series, financial_series @ [c], other_series)
      else if abs_r c > 0.3
        then classify_loop cs (funny_series, financial_series, other_series @ [c])
      else classify_loop cs (funny_series, financial_series, other_series))"

text \<open>
  \<open>xs.sort(key=lambda x: x["abs_r"], reverse=True)\<close>: Python's sort is stable, also with
  \<open>reverse=True\<close>, so rows of equal \<open>abs_r\<close> keep their order. \<open>sort_key\<close> is the stable
  insertion sort; sorting by the negated key sorts descending.
\<close>

definition sort_abs_r_desc :: "'a row_scheme list \<Rightarrow> 'a row_scheme list" where
  "sort_abs_r_desc xs = sort_key (\<lambda>x. - abs_r x) xs"

text \<open>A curated entry \<open>{**c, "category": cat}\<close> is the row with one more key.\<close>

record crow = row +
  category :: string

definition with_category :: "row \<Rightarrow> string \<Rightarrow> crow" where
  "with_category c cat =
     \<lparr>row_id = row_id c, title = title c, r = r c, abs_r = abs_r c,
      n_dates = n_dates c, n_aligned = n_aligned c, category = cat\<rparr>"

fun funny_loop :: "row list \<Rightarrow> crow list \<Rightarrow> crow list" where
  "funny_loop [] curated = curated"
| "funny_loop (c # cs) curated = funny_loop cs (curated @ [with_category c ''funny''])"

text \<open>
  The loop over \<open>financial_series\<close> with its counters. A \<open>continue\<close> leaves \<open>curated\<close>
  as it is and keeps the counters as incremented so far.
\<close>

fun financial_loop :: "row list \<Rightarrow> nat \<Rightarrow> nat \<Rightarrow> crow list \<Rightarrow> crow list" where
  "financial_loop [] baml_count vix_count curated = curated"
| "financial_loop (c # cs) baml_count vix_count curated =
     (let t = title c;
          baml_count = (if str_in ''ICE BofA'' t then baml_count + 1 else baml_count)
      in if str_in ''ICE BofA'' t \<and> baml_count > 5
           then financial_loop cs baml_count vix_count curated
         else
           (let vix_count =
                  (if str_in ''CBOE'' t \<or> str_in ''VIX'' t then vix_count + 1 else vix_count)
            in if (str_in ''CBOE'' t \<or> str_in ''VIX'' t) \<and> vix_count > 3
                 then financial_loop cs baml_count vix_count curated
               else financial_loop cs baml_count vix_count
                      (curated @ [with_category c ''financial''])))"

fun other_loop :: "row list \<Rightarrow> crow list \<Rightarrow> crow list" where
  "other_loop [] curated = curated"
| "other_loop (c # cs) curated =
     (let t = title c
      in if str_in ''ICE BofA'' t \<or> str_in ''CBOE'' t
           then other_loop cs curated
         else other_loop cs (curated @ [with_category c ''other'']))"

text \<open>The script from the loaded rows to the sorted \<open>curated\<close> list.\<close>

definition curated :: "row list \<Rightarrow> crow list" where
  "curated all_corr =
     (case classify_loop (deduped (reliable all_corr)) ([], [], []) of
        (funny_series, financial_series, other_series) \<Rightarrow>
          (let funny_series = sort_abs_r_desc funny_series;
               financial_series = sort_abs_r_desc financial_series;
               other_series = sort_abs_r_desc other_series;
               curated = funny_loop funny_series [];
               curated = financial_loop financial_series 0 0 curated;
               curated = other_loop other_series curated
           in sort_abs_r_desc curated))"

definition curated_for_worker :: "row list \<Rightarrow> (string \<times> string) list" where
  "curated_for_worker all_corr = map (\<lambda>c. (row_id c, title c)) (curated all_corr)"

section \<open>compute\_correlations.py\<close>

subsection \<open>The exclusion filter\<close>

record series =
  sid :: string
  stitle :: string
  units :: string
  popularity :: int

definition EXCLUDE_KEYWORDS :: "string list" where
  "EXCLUDE_KEYWORDS =
     [''vix'', ''volatility index'', ''nikkei'', ''nasdaq'', ''dow jones'',
      ''russell 2000'', ''s&p 500'', ''s&p500'',
      ''bitcoin'', ''ethereum'', ''coinbase'', ''litecoin'', ''bitcoin cash'',
      ''crypto'',
      ''gold price'', ''silver price'', ''copper price'', ''oil price'',
      ''platinum price'', ''palladium price'',
      ''wheat price'', ''corn price'', ''soybean price'',
      ''lumber price'', ''cotton price'', ''coffee price'',
      ''cocoa price'', ''sugar price'', ''cattle price'',
      ''natural gas price'', ''gasoline price'', ''diesel price'',
      ''wti'', ''brent'',
      ''commodity index'',
      ''stock price'', ''share price'', ''equity price'',
      ''total return index value'']"

definition EXCLUDE_IDS :: "string set" where
  "EXCLUDE_IDS =
     {''VIXCLS'', ''VXNCLS'', ''VXDCLS'', ''VXVCLS'', ''RVXCLS'',
      ''VXGSCLS'', ''VXAPLCLS'', ''VXAZNCLS'', ''VXGOGCLS'', ''VXIBMCLS'',
      ''VXSLVCLS'', ''VXEWZCLS'', ''VXFXICLS'', ''VXEEMCLS'', ''VXGDXCLS'',
      ''VXUSCLS'',
      ''NIKKEI225'',
      ''CBBTCUSD'', ''CBETHUSD'', ''CBLTCUSD'', ''CBBCHUSD'',
      ''DGASNYH'', ''DGASRGCG'', ''DCOILWTICO'', ''DCOILBRENTEU'',
      ''DHHNGSP'', ''DPROPANEMBTX'',
      ''GOLDAMGBD228NLBM'', ''GOLDPMGBD228NLBM'',
      ''SLVPRUSD'',
      ''BAMLHYH0A3CMTRIV'', ''BAMLHYH0A0HYM2TRIV'',
      ''BAMLCC0A1AAATRIV'', ''BAMLCC0A0CMTRIV''}"

text \<open>
  \<open>is_excluded\<close> returns at the first keyword found in the lower-cased title, which is
  the existential \<open>any_in\<close>.
\<close>

definition is_excluded :: "series \<Rightarrow> bool" where
  "is_excluded s =
     (let sid = sid s; title = lower (stitle s)
      in if sid \<in> EXCLUDE_IDS then True
         else if any_in EXCLUDE_KEYWORDS title then True
         else False)"

text \<open>
  The main script adds the ids of the excluded FRED category, fetched from the API and
  here the parameter \<open>exclude_from_category\<close>, and keeps a series when neither test
  excludes it.
\<close>

definition effective_excluded_ids :: "string set \<Rightarrow> string set" where
  "effective_excluded_ids exclude_from_category = EXCLUDE_IDS \<union> exclude_from_category"

definition filtered :: "string set \<Rightarrow> series list \<Rightarrow> series list" where
  "filtered exclude_from_category all_series =
     filter (\<lambda>s. sid s \<notin> effective_excluded_ids exclude_from_category \<and> \<not> is_excluded s)
       all_series"

subsection \<open>Observations and the fill\<close>

text \<open>
  An observation is \<open>{"date": d, "value": v}\<close>. Dates are ISO strings compared with
  \<open><=\<close>; the model takes any linearly ordered type for them. Values are only copied by
  the alignment, never computed with, so their type is left open.
\<close>

record ('d, 'v) observation =
  date :: 'd
  val :: 'v

text \<open>\<open>{o["date"]: o["value"] for o in obs}\<close>: a later entry replaces an earlier one.\<close>

definition dict_of :: "('d, 'v) observation list \<Rightarrow> ('d \<rightharpoonup> 'v)" where
  "dict_of obs = fold (\<lambda>ob m. m(date ob \<mapsto> val ob)) obs Map.empty"

text \<open>
  The inner loop of \<open>forward_fill\<close>: it walks the sorted observations, remembers the
  value of each one dated on or before \<open>d\<close>, and breaks at the first later one.
\<close>

fun prior_loop :: "('d::linorder, 'v) observation list \<Rightarrow> 'd \<Rightarrow> 'v option \<Rightarrow> 'v option" where
  "prior_loop [] d prior_value = prior_value"
| "prior_loop (ob # obs) d prior_value =
     (if date ob \<le> d then prior_loop obs d (Some (val ob)) else prior_value)"

text \<open>
  The outer loop over the sorted target dates, with \<open>obs_map\<close> and \<open>extra\<close> passed along.
  \<open>None\<close> is the early \<open>return None\<close>.
\<close>

fun fill_loop ::
  "'d::linorder list \<Rightarrow> ('d, 'v) observation list \<Rightarrow> ('d \<rightharpoonup> 'v) \<Rightarrow> ('d, 'v) observation list
     \<Rightarrow> (('d \<rightharpoonup> 'v) \<times> ('d, 'v) observation list) option" where
  "fill_loop [] obs_sorted obs_map extra = Some (obs_map, extra)"
| "fill_loop (d # ds) obs_sorted obs_map extra =
     (if obs_map d \<noteq> None then fill_loop ds obs_sorted obs_map extra
      else
        (case prior_loop obs_sorted d None of
           None \<Rightarrow> None
         | Some prior_value \<Rightarrow>
             fill_loop ds obs_sorted (obs_map(d \<mapsto> prior_value))
               (extra @ [\<lparr>date = d, val = prior_value\<rparr>])))"

definition forward_fill ::
  "('d::linorder, 'v) observation list \<Rightarrow> 'd set \<Rightarrow> ('d, 'v) observation list option" where
  "forward_fill obs target_dates =
     (let obs_sorted = sort_key date obs;
          obs_map = dict_of obs_sorted
      in case fill_loop (sorted_list_of_set target_dates) obs_sorted obs_map [] of
           None \<Rightarrow> None
         | Some (obs_map, extra) \<Rightarrow>
             Some (if extra \<noteq> [] then obs_sorted @ extra else obs_sorted))"

subsection \<open>The alignment of one candidate\<close>

text \<open>
  \<open>max_missing = int((1.0 - MIN_OVERLAP_RATIO) * len(sp500_dates))\<close>. The model computes
  this expression in the reals. Python computes it in binary64, where \<open>1.0 - 0.95\<close> is a
  little above one twentieth; \<open>max_missing_f64\<close> below is that computation, and it gives
  the same integer for every count of dates below \<open>2 ^ 49\<close> (lemma
  \<open>max_missing_f64_eq_max_missing\<close>).
\<close>

definition MIN_OVERLAP_RATIO :: real where
  "MIN_OVERLAP_RATIO = 0.95"

definition max_missing :: "nat \<Rightarrow> nat" where
  "max_missing n = nat \<lfloor>(1.0 - MIN_OVERLAP_RATIO) * real n\<rfloor>"

text \<open>
  Binary64 arithmetic on the rationals, for magnitudes in the normal range: the result
  of an operation is the exact result rounded to a significand of 53 bits, to the nearest
  such number and to the even significand at a tie. \<open>f64_exponent x\<close> is the \<open>e\<close> with
  \<open>2 ^ e \<le> x < 2 ^ (e + 1)\<close> for \<open>x > 0\<close>.
\<close>

definition f64_exponent :: "rat \<Rightarrow> int" where
  "f64_exponent x =
     (let (p, q) = quotient_of x; k = bitlen p - bitlen q
      in if 2 powi k \<le> x then k else k - 1)"

definition round_half_even :: "rat \<Rightarrow> int" where
  "round_half_even m =
     (let f = \<lfloor>m\<rfloor>; d = m - of_int f
      in if d < 1 / 2 then f else if d > 1 / 2 then f + 1
         else if even f then f else f + 1)"

definition f64 :: "rat \<Rightarrow> rat" where
  "f64 x =
     (if x = 0 then 0
      else let u = 2 powi (f64_exponent \<bar>x\<bar> - 52)
           in sgn x * of_int (round_half_even (\<bar>x\<bar> / u)) * u)"

text \<open>
  The literal \<open>0.95\<close> is rounded, the subtraction from \<open>1.0\<close> is rounded, the count is
  converted (exactly, below \<open>2 ^ 53\<close>), the product is rounded, and \<open>int\<close> truncates.
\<close>

definition max_missing_f64 :: "nat \<Rightarrow> nat" where
  "max_missing_f64 n = nat \<lfloor>f64 (f64 (1 - f64 (95 / 100)) * of_nat n)\<rfloor>"

text \<open>
  The loop that reads both maps at every benchmark date. A missing key raises
  \<open>KeyError\<close>, here \<open>None\<close>.
\<close>

fun align_loop ::
  "'d list \<Rightarrow> ('d \<rightharpoonup> 'v) \<Rightarrow> ('d \<rightharpoonup> 'v) \<Rightarrow> 'v list \<Rightarrow> 'v list \<Rightarrow> ('v list \<times> 'v list) option" where
  "align_loop [] sp500_map obs_map sp_vals other_vals = Some (sp_vals, other_vals)"
| "align_loop (d # ds) sp500_map obs_map sp_vals other_vals =
     (case sp500_map d of
        None \<Rightarrow> None
      | Some s \<Rightarrow>
          (case obs_map d of
             None \<Rightarrow> None
           | Some v \<Rightarrow> align_loop ds sp500_map obs_map (sp_vals @ [s]) (other_vals @ [v])))"

text \<open>
  What the loop body has when it calls \<open>pearson_r\<close>: the sorted benchmark dates, the two
  value lists and the sorted missing dates, which become \<open>n_dates\<close> and \<open>filled_dates\<close>
  of the result row.
\<close>

record ('d, 'v) aligned =
  al_dates :: "'d list"
  al_sp_vals :: "'v list"
  al_other_vals :: "'v list"
  filled_dates :: "'d list"

text \<open>
  The outcome of the body for one candidate, up to the call of \<open>pearson_r\<close>:
  \<open>Insufficient_overlap\<close> is either \<open>continue\<close> that counts the candidate under
  \<open>partial_overlap\<close>; \<open>Key_error\<close> is the exception that ends the run; a candidate is
  accepted when it is \<open>Aligned\<close> and its correlation is a number. \<open>pearson_r\<close> itself is
  numpy arithmetic on binary64 arrays and is not part of this model, nor are the
  functions that fetch from the API.
\<close>

datatype ('d, 'v) outcome =
    Insufficient_overlap
  | Key_error
  | Aligned "('d, 'v) aligned"

definition align_candidate ::
  "('d::linorder, 'v) observation list \<Rightarrow> ('d, 'v) observation list \<Rightarrow> ('d, 'v) outcome" where
  "align_candidate sp500 obs =
     (let sp500_dates = set (map date sp500);
          sp500_map = dict_of sp500;
          max_missing = max_missing (card sp500_dates);
          obs_dates = set (map date obs);
          missing_dates = sp500_dates - obs_dates
      in if card missing_dates > max_missing then Insufficient_overlap
         else
           (case (if missing_dates \<noteq> {} then forward_fill obs missing_dates else Some obs) of
              None \<Rightarrow> Insufficient_overlap
            | Some obs \<Rightarrow>
                (let obs_map = dict_of obs;
                     dates = sorted_list_of_set sp500_dates
                 in case align_loop dates sp500_map obs_map [] [] of
                      None \<Rightarrow> Key_error
                    | Some (sp_vals, other_vals) \<Rightarrow>
                        Aligned \<lparr>al_dates = dates, al_sp_vals = sp_vals,
                                 al_other_vals = other_vals,
                                 filled_dates = sorted_list_of_set missing_dates\<rparr>)))"

section \<open>Auxiliary notions for the proofs\<close>

text \<open>The entry that the fill appends for a missing date \<open>d\<close>.\<close>

definition fill_entry :: "('d::linorder, 'v) observation list \<Rightarrow> 'd \<Rightarrow> ('d, 'v) observation" where
  "fill_entry obs_sorted d = \<lparr>date = d, val = the (prior_loop obs_sorted d None)\<rparr>"

text \<open>
  The value an aligned candidate has at a benchmark date: the value observed on that
  date (the last one listed, should the date occur twice), and otherwise the value of
  the last observation on or before it in date order.
\<close>

definition carried :: "('d::linorder, 'v) observation list \<Rightarrow> 'd \<Rightarrow> 'v" where
  "carried obs d =
     (if d \<in> date ` set obs then val (last (filter (\<lambda>ob. date ob = d) obs))
      else val (last (filter (\<lambda>ob. date ob \<le> d) (sort_key date obs))))"

text \<open>The two capped families among the entries of category \<open>financial\<close>.\<close>

definition is_baml :: "crow \<Rightarrow> bool" where
  "is_baml e \<longleftrightarrow> category e = ''financial'' \<and> str_in ''ICE BofA'' (title e)"

definition is_vix :: "crow \<Rightarrow> bool" where
  "is_vix e \<longleftrightarrow> category e = ''financial''
                 \<and> (str_in ''CBOE'' (title e) \<or> str_in ''VIX'' (title e))"

section \<open>Example data\<close>

text \<open>Twenty trading days of a window, a benchmark and a candidate observed on each.\<close>

definition ex_days :: "string list" where
  "ex_days =
     [''2024-01-02'', ''2024-01-03'', ''2024-01-04'', ''2024-01-05'', ''2024-01-08'',
      ''2024-01-09'', ''2024-01-10'', ''2024-01-11'', ''2024-01-12'', ''2024-01-16'',
      ''2024-01-17'', ''2024-01-18'', ''2024-01-19'', ''2024-01-22'', ''2024-01-23'',
      ''2024-01-24'', ''2024-01-25'', ''2024-01-26'', ''2024-01-29'', ''2024-01-30'']"

definition ex_sp500_values :: "real list" where
  "ex_sp500_values =
     [4742.83, 4704.81, 4688.68, 4697.24, 4763.54, 4756.50, 4783.45, 4780.24, 4783.83,
      4765.98, 4739.21, 4780.94, 4839.81, 4850.43, 4864.60, 4868.55, 4894.16, 4890.97,
      4927.93, 4924.97]"

definition ex_obs_values :: "real list" where
  "ex_obs_values =
     [3.95, 3.91, 3.99, 4.05, 4.01, 4.02, 4.04, 3.98, 3.96, 4.07,
      4.10, 4.14, 4.15, 4.11, 4.14, 4.18, 4.14, 4.15, 4.08, 4.06]"

definition ex_sp500 :: "(string, real) observation list" where
  "ex_sp500 = map (\<lambda>(d, v). \<lparr>date = d, val = v\<rparr>) (zip ex_days ex_sp500_values)"

definition ex_obs :: "(string, real) observation list" where
  "ex_obs = map (\<lambda>(d, v). \<lparr>date = d, val = v\<rparr>) (zip ex_days ex_obs_values)"

text \<open>The candidate without its observation of one day, of the first day, and of two days.\<close>

definition ex_obs_gap :: "(string, real) observation list" where
  "ex_obs_gap = filter (\<lambda>ob. date ob \<noteq> ''2024-01-10'') ex_obs"

definition ex_obs_late :: "(string, real) observation list" where
  "ex_obs_late = filter (\<lambda>ob. date ob \<noteq> ''2024-01-02'') ex_obs"

definition ex_obs_sparse :: "(string, real) observation list" where
  "ex_obs_sparse =
     filter (\<lambda>ob. date ob \<noteq> ''2024-01-10'' \<and> date ob \<noteq> ''2024-01-11'') ex_obs"

definition ex_aligned_gap :: "(string, real) aligned" where
  "ex_aligned_gap =
     \<lparr>al_dates = ex_days, al_sp_vals = ex_sp500_values,
      al_other_vals =
        [3.95, 3.91, 3.99, 4.05, 4.01, 4.02, 4.02, 3.98, 3.96, 4.07,
         4.10, 4.14, 4.15, 4.11, 4.14, 4.18, 4.14, 4.15, 4.08, 4.06],
      filled_dates = [''2024-01-10'']\<rparr>"

text \<open>Rows of a correlation file.\<close>

definition ex_row :: "string \<Rightarrow> string \<Rightarrow> real \<Rightarrow> int \<Rightarrow> row" where
  "ex_row i t a n =
     \<lparr>row_id = i, title = t, r = a, abs_r = a, n_dates = Some n, n_aligned = None\<rparr>"

definition ex_all_corr :: "row list" where
  "ex_all_corr =
     [ex_row ''BAMLH0A0HYM2'' ''ICE BofA US High Yield Index Option-Adjusted Spread'' 0.91 41,
      ex_row ''BAMLH0A1HYBB'' ''ICE BofA BB US High Yield Index Option-Adjusted Spread'' 0.9 41,
      ex_row ''BAMLH0A2HYB'' ''ICE BofA Single-B US High Yield Index Option-Adjusted Spread'' 0.89 41,
      ex_row ''BAMLH0A3HYC'' ''ICE BofA CCC US High Yield Index Option-Adjusted Spread'' 0.88 41,
      ex_row ''BAMLHE00EHYIOAS'' ''ICE BofA Euro High Yield Index Option-Adjusted Spread'' 0.87 41,
      ex_row ''BAMLEMHBHYCRPIOAS'' ''ICE BofA Asia High Yield Index Option-Adjusted Spread'' 0.86 41,
      ex_row ''T10Y2Y'' ''10-Year Treasury Minus 2-Year Treasury'' 0.82 41,
      ex_row ''T10Y2YB'' ''10-Year Treasury Minus 2-Year Treasury'' 0.81 41,
      ex_row ''VIXA'' ''CBOE Volatility Index: VIX'' 0.8 41,
      ex_row ''GVZA'' ''CBOE Gold ETF Volatility Index'' 0.79 41,
      ex_row ''VXTYN'' ''CBOE 10-Year Treasury Note Volatility'' 0.78 41,
      ex_row ''VIX3M'' ''CBOE 3-Month VIX'' 0.77 41,
      ex_row ''IHLIDXUS'' ''Job Postings on Indeed in the United States'' 0.64 41,
      ex_row ''BAMLC0A1CAAAEY'' ''ICE BofA AAA US Corporate Index Effective Yield'' 0.5 41,
      ex_row ''DEXUSEU'' ''U.S. Dollars to Euro Spot Exchange Rate'' 0.45 41,
      ex_row ''SHORT'' ''Overnight Bank Funding Rate'' 0.95 12,
      ex_row ''COMPOUT'' ''Commercial Paper Outstanding'' 0.2 41]"

text \<open>Two series of the discovery file.\<close>

definition ex_gold :: series where
  "ex_gold = \<lparr>sid = ''GOLDLONDON'', stitle = ''Gold Price, London'',
              units = ''U.S. Dollars per Troy Ounce'', popularity = 50\<rparr>"

definition ex_claims :: series where
  "ex_claims = \<lparr>sid = ''ICSA'', stitle = ''Initial Claims, Unemployment Insurance'',
                units = ''Number'', popularity = 80\<rparr>"

definition ex_dup_rows :: "row list" where
  "ex_dup_rows =
     [ex_row ''T10Y2Y'' ''10-Year Treasury Minus 2-Year Treasury'' 0.82 41,
      ex_row ''T10Y2YB'' ''10-Year Treasury Minus 2-Year Treasury'' 0.81 41,
      ex_row ''VIXA'' ''CBOE Volatility Index: VIX'' 0.8 41]"

definition ex_curated :: "crow list" where
  "ex_curated =
     [with_category (ex_all_corr ! 0) ''financial'',
      with_category (ex_all_corr ! 1) ''financial'',
      with_category (ex_all_corr ! 2) ''financial'',
      with_category (ex_all_corr ! 3) ''financial'',
      with_category (ex_all_corr ! 4) ''financial'',
      with_category (ex_all_corr ! 6) ''financial'',
      with_category (ex_all_corr ! 8) ''financial'',
      with_category (ex_all_corr ! 9) ''financial'',
      with_category (ex_all_corr ! 10) ''financial'',
      with_category (ex_all_corr ! 12) ''funny'',
      with_category (ex_all_corr ! 14) ''other'']"

definition ex_funny_entry :: crow where
  "ex_funny_entry =
     with_category
       (ex_row ''IHLIDXUS'' ''Job Postings on Indeed in the United States'' 0.64 41) ''funny''"

definition ex_other_entry :: crow where
  "ex_other_entry =
     with_category
       (ex_row ''DEXUSEU'' ''U.S. Dollars to Euro Spot Exchange Rate'' 0.45 41) ''other''"

section \<open>Lemmas on strings and on the curation loops\<close>

text \<open>The two string tests are the library's \<open>prefix\<close> and \<open>sublist\<close>.\<close>

lemma startswith_prefix: "startswith t kw \<longleftrightarrow> prefix kw t"
  by (induction t kw rule: startswith.induct) auto

lemma str_in_sublist: "str_in kw t \<longleftrightarrow> sublist kw t"
proof (induction t)
  case Nil show ?case by simp
next
  case (Cons c cs)
  show ?case using Cons.IH by (simp add: startswith_prefix sublist_Cons_right)
qed

lemma any_in_iff: "any_in kws t \<longleftrightarrow> (\<exists>kw\<in>set kws. sublist kw t)"
  by (simp add: any_in_def list_ex_iff str_in_sublist)

text \<open>The deduplication loop only appends to its accumulator.\<close>

lemma dedup_loop_acc: "dedup_loop cs seen acc = acc @ dedup_loop cs seen []"
proof (induction cs arbitrary: seen acc)
  case Nil show ?case by simp
next
  case (Cons c cs)
  show ?case
    using Cons.IH[of "insert (title c) seen" "acc @ [c]"] Cons.IH[of "insert (title c) seen" "[c]"] Cons.IH[of seen acc]
    by simp
qed

lemma dedup_loop_index:
  "dedup_loop cs seen [] =
     map ((!) cs) (filter (\<lambda>i. title (cs ! i) \<notin> seen \<and> (\<forall>j<i. title (cs ! j) \<noteq> title (cs ! i))) [0..<length cs])"
proof (induction cs arbitrary: seen)
  case Nil show ?case by simp
next
  case (Cons c cs)
  have up: "[0..<length (c # cs)] = 0 # map Suc [0..<length cs]"
    by (simp add: upt_conv_Cons map_Suc_upt del: upt_Suc)
  show ?case
  proof (cases "title c \<in> seen")
    case True
    have "dedup_loop (c # cs) seen [] = dedup_loop cs seen []" using True by simp
    also have "\<dots> = map ((!) cs) (filter (\<lambda>i. title (cs ! i) \<notin> seen \<and> (\<forall>j<i. title (cs ! j) \<noteq> title (cs ! i))) [0..<length cs])"
      by (rule Cons.IH)
    also have "\<dots> = map ((!) (c # cs)) (filter (\<lambda>i. title ((c # cs) ! i) \<notin> seen \<and> (\<forall>j<i. title ((c # cs) ! j) \<noteq> title ((c # cs) ! i))) [0..<length (c # cs)])"
    proof -
      have "(\<lambda>i. title (cs ! i) \<notin> seen \<and> (\<forall>j<i. title (cs ! j) \<noteq> title (cs ! i)))
          = (\<lambda>i. title (cs ! i) \<notin> seen \<and> title c \<noteq> title (cs ! i) \<and> (\<forall>j<i. title (cs ! j) \<noteq> title (cs ! i)))"
        using True by auto
      then show ?thesis
        unfolding up using True by (simp add: filter_map comp_def All_less_Suc2)
    qed
    finally show ?thesis .
  next
    case False
    have "dedup_loop (c # cs) seen [] = [c] @ dedup_loop cs (insert (title c) seen) []"
      using False dedup_loop_acc[of cs "insert (title c) seen" "[c]"] by simp
    also have "dedup_loop cs (insert (title c) seen) [] = map ((!) cs) (filter (\<lambda>i. title (cs ! i) \<notin> insert (title c) seen \<and> (\<forall>j<i. title (cs ! j) \<noteq> title (cs ! i))) [0..<length cs])"
      by (rule Cons.IH)
    also have "[c] @ \<dots> = map ((!) (c # cs)) (filter (\<lambda>i. title ((c # cs) ! i) \<notin> seen \<and> (\<forall>j<i. title ((c # cs) ! j) \<noteq> title ((c # cs) ! i))) [0..<length (c # cs)])"
    proof -
      have "(\<lambda>i. title (cs ! i) \<notin> insert (title c) seen \<and> (\<forall>j<i. title (cs ! j) \<noteq> title (cs ! i)))
          = (\<lambda>i. title (cs ! i) \<notin> seen \<and> title c \<noteq> title (cs ! i) \<and> (\<forall>j<i. title (cs ! j) \<noteq> title (cs ! i)))"
        by auto
      then show ?thesis
        unfolding up using False by (simp add: filter_map comp_def All_less_Suc2)
    qed
    finally show ?thesis .
  qed
qed

lemma dedup_loop_titles:
  "distinct (map title (dedup_loop cs seen [])) \<and> title ` set (dedup_loop cs seen []) \<inter> seen = {}"
proof (induction cs arbitrary: seen)
  case Nil show ?case by simp
next
  case (Cons c cs)
  show ?case
  proof (cases "title c \<in> seen")
    case True then show ?thesis using Cons.IH[of seen] by simp
  next
    case False
    have e: "dedup_loop (c # cs) seen [] = c # dedup_loop cs (insert (title c) seen) []"
      using False dedup_loop_acc[of cs "insert (title c) seen" "[c]"] by simp
    show ?thesis unfolding e using Cons.IH[of "insert (title c) seen"] False by auto
  qed
qed

lemma dedup_loop_fix:
  "distinct (map title cs) \<Longrightarrow> title ` set cs \<inter> seen = {} \<Longrightarrow> dedup_loop cs seen acc = acc @ cs"
proof (induction cs arbitrary: seen acc)
  case Nil show ?case by simp
next
  case (Cons c cs)
  have "title c \<notin> seen" using Cons.prems(2) by auto
  moreover have "dedup_loop cs (insert (title c) seen) (acc @ [c]) = (acc @ [c]) @ cs"
    using Cons.prems by (intro Cons.IH) auto
  ultimately show ?case by simp
qed

lemma dedup_loop_title_set:
  "title ` set (dedup_loop cs seen []) = title ` set cs - seen"
proof (induction cs arbitrary: seen)
  case Nil show ?case by simp
next
  case (Cons c cs)
  show ?case
  proof (cases "title c \<in> seen")
    case True then show ?thesis using Cons.IH[of seen] by auto
  next
    case False
    have e: "dedup_loop (c # cs) seen [] = c # dedup_loop cs (insert (title c) seen) []"
      using False dedup_loop_acc[of cs "insert (title c) seen" "[c]"] by simp
    show ?thesis unfolding e using Cons.IH[of "insert (title c) seen"] False by auto
  qed
qed

text \<open>The classification loop computes three filters of its input.\<close>

lemma classify_loop_acc:
  "classify_loop cs (fu, fi, ot) =
     (fu @ filter (\<lambda>c. is_funny c \<and> abs_r c > 0.15) cs,
      fi @ filter (\<lambda>c. \<not> (is_funny c \<and> abs_r c > 0.15)
                        \<and> is_interesting_financial c \<and> abs_r c > 0.1) cs,
      ot @ filter (\<lambda>c. \<not> (is_funny c \<and> abs_r c > 0.15)
                        \<and> \<not> (is_interesting_financial c \<and> abs_r c > 0.1)
                        \<and> abs_r c > 0.3) cs)"
proof (induction cs arbitrary: fu fi ot)
  case Nil show ?case by simp
next
  case (Cons c cs)
  show ?case
    using Cons.IH[of "fu @ [c]" fi ot] Cons.IH[of fu "fi @ [c]" ot]
          Cons.IH[of fu fi "ot @ [c]"] Cons.IH[of fu fi ot]
    by simp
qed

lemma funny_loop_eq: "funny_loop cs cur = cur @ map (\<lambda>c. with_category c ''funny'') cs"
  by (induction cs arbitrary: cur) simp_all

lemma other_loop_eq:
  "other_loop cs cur =
     cur @ map (\<lambda>c. with_category c ''other'')
             (filter (\<lambda>c. \<not> (str_in ''ICE BofA'' (title c) \<or> str_in ''CBOE'' (title c))) cs)"
  by (induction cs arbitrary: cur) (simp_all add: Let_def)

lemma financial_loop_skip_baml:
  "str_in ''ICE BofA'' (title c) \<Longrightarrow> 5 < b + 1 \<Longrightarrow>
   financial_loop (c # cs) b v cur = financial_loop cs (b + 1) v cur"
  by (simp add: Let_def)

lemma financial_loop_skip_vix:
  "\<not> (str_in ''ICE BofA'' (title c) \<and> 5 < b + 1) \<Longrightarrow>
   str_in ''CBOE'' (title c) \<or> str_in ''VIX'' (title c) \<Longrightarrow> 3 < v + 1 \<Longrightarrow>
   financial_loop (c # cs) b v cur =
     financial_loop cs (if str_in ''ICE BofA'' (title c) then b + 1 else b) (v + 1) cur"
  by (simp add: Let_def)

lemma financial_loop_keep:
  "\<not> (str_in ''ICE BofA'' (title c) \<and> 5 < b + 1) \<Longrightarrow>
   \<not> ((str_in ''CBOE'' (title c) \<or> str_in ''VIX'' (title c)) \<and> 3 < v + 1) \<Longrightarrow>
   financial_loop (c # cs) b v cur =
     financial_loop cs (if str_in ''ICE BofA'' (title c) then b + 1 else b)
       (if str_in ''CBOE'' (title c) \<or> str_in ''VIX'' (title c) then v + 1 else v)
       (cur @ [with_category c ''financial''])"
  by (auto simp: Let_def)

lemma financial_loop_shape:
  "\<exists>kept. financial_loop cs b v cur = cur @ map (\<lambda>c. with_category c ''financial'') kept
          \<and> set kept \<subseteq> set cs"
proof (induction cs arbitrary: b v cur)
  case Nil show ?case by simp
next
  case (Cons c cs)
  let ?ice = "str_in ''ICE BofA'' (title c)"
  let ?vf = "str_in ''CBOE'' (title c) \<or> str_in ''VIX'' (title c)"
  let ?b = "if ?ice then b + 1 else b"
  let ?v = "if ?vf then v + 1 else v"
  show ?case
  proof (cases "?ice \<and> 5 < b + 1")
    case True
    then have e: "financial_loop (c # cs) b v cur = financial_loop cs (b + 1) v cur"
      by (simp only: financial_loop_skip_baml)
    from Cons.IH[of "b + 1" v cur] obtain kept where
      "financial_loop cs (b + 1) v cur = cur @ map (\<lambda>c. with_category c ''financial'') kept"
      "set kept \<subseteq> set cs" by blast
    then show ?thesis unfolding e by (intro exI[of _ kept]) auto
  next
    case nb: False
    show ?thesis
    proof (cases "?vf \<and> 3 < v + 1")
      case True
      then have e: "financial_loop (c # cs) b v cur = financial_loop cs ?b (v + 1) cur"
        using financial_loop_skip_vix[OF nb] by blast
      from Cons.IH[of ?b "v + 1" cur] obtain kept where
        "financial_loop cs ?b (v + 1) cur = cur @ map (\<lambda>c. with_category c ''financial'') kept"
        "set kept \<subseteq> set cs" by blast
      then show ?thesis unfolding e by (intro exI[of _ kept]) auto
    next
      case nv: False
      have e: "financial_loop (c # cs) b v cur
                 = financial_loop cs ?b ?v (cur @ [with_category c ''financial''])"
        by (rule financial_loop_keep[OF nb nv])
      from Cons.IH[of ?b ?v "cur @ [with_category c ''financial'']"] obtain kept where
        "financial_loop cs ?b ?v (cur @ [with_category c ''financial''])
           = (cur @ [with_category c ''financial'']) @ map (\<lambda>c. with_category c ''financial'') kept"
        "set kept \<subseteq> set cs" by blast
      then show ?thesis unfolding e by (intro exI[of _ "c # kept"]) auto
    qed
  qed
qed

text \<open>
  The invariant of the loop over \<open>financial_series\<close>: the entries kept of either family
  number at most the counter of that family, and at most its cap.
\<close>

lemma financial_loop_caps:
  "length (filter is_baml cur) \<le> min b 5 \<Longrightarrow> length (filter is_vix cur) \<le> min v 3 \<Longrightarrow>
   length (filter is_baml (financial_loop cs b v cur)) \<le> 5
   \<and> length (filter is_vix (financial_loop cs b v cur)) \<le> 3"
proof (induction cs arbitrary: b v cur)
  case Nil then show ?case by simp
next
  case (Cons c cs)
  let ?ice = "str_in ''ICE BofA'' (title c)"
  let ?vf = "str_in ''CBOE'' (title c) \<or> str_in ''VIX'' (title c)"
  let ?b = "if ?ice then b + 1 else b"
  let ?v = "if ?vf then v + 1 else v"
  let ?e = "with_category c ''financial''"
  have eb: "is_baml ?e \<longleftrightarrow> ?ice" by (simp add: is_baml_def with_category_def)
  have ev: "is_vix ?e \<longleftrightarrow> ?vf" by (simp add: is_vix_def with_category_def)
  show ?case
  proof (cases "?ice \<and> 5 < b + 1")
    case True
    then have e: "financial_loop (c # cs) b v cur = financial_loop cs (b + 1) v cur"
      by (simp only: financial_loop_skip_baml)
    have "length (filter is_baml cur) \<le> min (b + 1) 5" using Cons.prems(1) by arith
    from Cons.IH[OF this Cons.prems(2)] show ?thesis unfolding e .
  next
    case nb: False
    have pb: "length (filter is_baml cur) \<le> min ?b 5" using Cons.prems(1) by (auto simp: min_def split: if_splits)
    show ?thesis
    proof (cases "?vf \<and> 3 < v + 1")
      case True
      then have e: "financial_loop (c # cs) b v cur = financial_loop cs ?b (v + 1) cur"
        using financial_loop_skip_vix[OF nb] by blast
      have "length (filter is_vix cur) \<le> min (v + 1) 3" using Cons.prems(2) by arith
      from Cons.IH[OF pb this] show ?thesis unfolding e .
    next
      case nv: False
      have e: "financial_loop (c # cs) b v cur = financial_loop cs ?b ?v (cur @ [?e])"
        by (rule financial_loop_keep[OF nb nv])
      have 1: "length (filter is_baml (cur @ [?e])) \<le> min ?b 5"
        using Cons.prems(1) nb by (auto simp: eb min_def)
      have 2: "length (filter is_vix (cur @ [?e])) \<le> min ?v 3"
        using Cons.prems(2) nv by (auto simp: ev min_def)
      from Cons.IH[OF 1 2] show ?thesis unfolding e .
    qed
  qed
qed

lemma curated_unfold:
  "curated all_corr =
     sort_abs_r_desc
       (other_loop
          (sort_abs_r_desc
             (filter (\<lambda>c. \<not> (is_funny c \<and> abs_r c > 0.15)
                          \<and> \<not> (is_interesting_financial c \<and> abs_r c > 0.1)
                          \<and> abs_r c > 0.3) (deduped (reliable all_corr))))
          (financial_loop
             (sort_abs_r_desc
                (filter (\<lambda>c. \<not> (is_funny c \<and> abs_r c > 0.15)
                             \<and> is_interesting_financial c \<and> abs_r c > 0.1)
                   (deduped (reliable all_corr))))
             0 0
             (funny_loop
                (sort_abs_r_desc
                   (filter (\<lambda>c. is_funny c \<and> abs_r c > 0.15) (deduped (reliable all_corr))))
                [])))"
  by (simp add: curated_def classify_loop_acc Let_def)

lemma length_filter_sort_abs_r_desc:
  "length (filter P (sort_abs_r_desc xs)) = length (filter P xs)"
  by (simp add: sort_abs_r_desc_def filter_sort)

lemma set_sort_abs_r_desc: "set (sort_abs_r_desc xs) = set xs"
  by (simp add: sort_abs_r_desc_def)

lemma curated_members:
  assumes "e \<in> set (curated all_corr)"
  shows "\<exists>c\<in>set (deduped (reliable all_corr)).
           (e = with_category c ''funny'' \<and> is_funny c \<and> abs_r c > 0.15)
         \<or> (e = with_category c ''financial'' \<and> \<not> (is_funny c \<and> abs_r c > 0.15)
              \<and> is_interesting_financial c \<and> abs_r c > 0.1)
         \<or> (e = with_category c ''other'' \<and> \<not> (is_funny c \<and> abs_r c > 0.15)
              \<and> \<not> (is_interesting_financial c \<and> abs_r c > 0.1) \<and> abs_r c > 0.3
              \<and> \<not> str_in ''ICE BofA'' (title c) \<and> \<not> str_in ''CBOE'' (title c))"
proof -
  let ?d = "deduped (reliable all_corr)"
  let ?FU = "filter (\<lambda>c. is_funny c \<and> abs_r c > 0.15) ?d"
  let ?FI = "filter (\<lambda>c. \<not> (is_funny c \<and> abs_r c > 0.15)
                             \<and> is_interesting_financial c \<and> abs_r c > 0.1) ?d"
  let ?OT = "filter (\<lambda>c. \<not> (is_funny c \<and> abs_r c > 0.15)
                          \<and> \<not> (is_interesting_financial c \<and> abs_r c > 0.1)
                          \<and> abs_r c > 0.3) ?d"
  let ?cur1 = "funny_loop (sort_abs_r_desc ?FU) []"
  obtain kept where k: "financial_loop (sort_abs_r_desc ?FI) 0 0 ?cur1
                          = ?cur1 @ map (\<lambda>c. with_category c ''financial'') kept"
    and ks: "set kept \<subseteq> set (sort_abs_r_desc ?FI)"
    using financial_loop_shape[of "sort_abs_r_desc ?FI" 0 0 ?cur1] by blast
  have "e \<in> set (other_loop (sort_abs_r_desc ?OT)
                   (financial_loop (sort_abs_r_desc ?FI) 0 0 ?cur1))"
    using assms unfolding curated_unfold by (simp only: set_sort_abs_r_desc)
  then have "e \<in> set (financial_loop (sort_abs_r_desc ?FI) 0 0 ?cur1)
           \<or> e \<in> (\<lambda>c. with_category c ''other'') `
                  {c \<in> set ?OT. \<not> (str_in ''ICE BofA'' (title c) \<or> str_in ''CBOE'' (title c))}"
    unfolding other_loop_eq by (auto simp: set_sort_abs_r_desc)
  then have "e \<in> set ?cur1
           \<or> e \<in> (\<lambda>c. with_category c ''financial'') ` set kept
           \<or> e \<in> (\<lambda>c. with_category c ''other'') `
                  {c \<in> set ?OT. \<not> (str_in ''ICE BofA'' (title c) \<or> str_in ''CBOE'' (title c))}"
    unfolding k by auto
  then have "e \<in> (\<lambda>c. with_category c ''funny'') ` set ?FU
           \<or> e \<in> (\<lambda>c. with_category c ''financial'') ` set kept
           \<or> e \<in> (\<lambda>c. with_category c ''other'') `
                  {c \<in> set ?OT. \<not> (str_in ''ICE BofA'' (title c) \<or> str_in ''CBOE'' (title c))}"
    unfolding funny_loop_eq by (auto simp: set_sort_abs_r_desc)
  then show ?thesis
  proof (elim disjE)
    assume "e \<in> (\<lambda>c. with_category c ''funny'') ` set ?FU"
    then show ?thesis by auto
  next
    assume "e \<in> (\<lambda>c. with_category c ''financial'') ` set kept"
    then obtain c where "c \<in> set kept" "e = with_category c ''financial''" by auto
    moreover then have "c \<in> set ?FI" using ks by (auto simp: set_sort_abs_r_desc)
    ultimately show ?thesis by auto
  next
    assume "e \<in> (\<lambda>c. with_category c ''other'') `
                  {c \<in> set ?OT. \<not> (str_in ''ICE BofA'' (title c) \<or> str_in ''CBOE'' (title c))}"
    then show ?thesis by auto
  qed
qed

lemma category_with_category [simp]: "category (with_category c cat) = cat"
  by (simp add: with_category_def)

lemma title_with_category [simp]: "title (with_category c cat) = title c"
  by (simp add: with_category_def)

section \<open>Lemmas on the fill and the alignment\<close>

lemma prior_loop_sorted:
  "sorted (map date os) \<Longrightarrow>
   prior_loop os d p =
     (if filter (\<lambda>ob. date ob \<le> d) os = [] then p
      else Some (val (last (filter (\<lambda>ob. date ob \<le> d) os))))"
proof (induction os arbitrary: p)
  case Nil show ?case by simp
next
  case (Cons ob os)
  show ?case
  proof (cases "date ob \<le> d")
    case True
    have "sorted (map date os)" using Cons.prems by simp
    from Cons.IH[OF this, of "Some (val ob)"] True show ?thesis
      by simp
  next
    case False
    have "\<forall>x\<in>set os. \<not> date x \<le> d" using Cons.prems False by auto
    hence "filter (\<lambda>ob. date ob \<le> d) os = []" by (simp add: filter_empty_conv)
    with False show ?thesis by simp
  qed
qed

lemma fold_upd_lookup:
  "fold (\<lambda>ob m. m(date ob \<mapsto> val ob)) xs m d =
     (if filter (\<lambda>ob. date ob = d) xs = [] then m d
      else Some (val (last (filter (\<lambda>ob. date ob = d) xs))))"
proof (induction xs arbitrary: m)
  case Nil show ?case by simp
next
  case (Cons x xs)
  show ?case using Cons.IH[of "m(date x \<mapsto> val x)"]
    by simp
qed

lemma dict_of_lookup:
  "dict_of xs d =
     (if filter (\<lambda>ob. date ob = d) xs = [] then None
      else Some (val (last (filter (\<lambda>ob. date ob = d) xs))))"
  unfolding dict_of_def by (simp add: fold_upd_lookup)

lemma dict_of_None: "dict_of xs d = None \<longleftrightarrow> d \<notin> date ` set xs"
  unfolding dict_of_lookup by (auto simp: filter_empty_conv)

lemma dict_of_sort_key: "dict_of (sort_key date xs) = dict_of xs"
proof
  fix d
  have "filter (\<lambda>ob. date ob = d) (sort_key date xs) = filter (\<lambda>ob. date ob = d) xs"
    by (rule sort_key_stable)
  thus "dict_of (sort_key date xs) d = dict_of xs d" by (simp add: dict_of_lookup)
qed

lemma dict_of_append:
  "dict_of (xs @ ys) d = (case dict_of ys d of None \<Rightarrow> dict_of xs d | Some v \<Rightarrow> Some v)"
  unfolding dict_of_lookup by simp

lemma fill_loop_None:
  "distinct ds \<Longrightarrow>
   fill_loop ds os m extra = None \<longleftrightarrow> (\<exists>d\<in>set ds. m d = None \<and> prior_loop os d None = None)"
proof (induction ds arbitrary: m extra)
  case Nil show ?case by simp
next
  case (Cons d ds)
  have dd: "distinct ds" and nd: "d \<notin> set ds" using Cons.prems by auto
  show ?case
  proof (cases "m d = None")
    case False
    then show ?thesis using Cons.IH[OF dd, of m extra] by auto
  next
    case True
    show ?thesis
    proof (cases "prior_loop os d None")
      case None
      with True show ?thesis by auto
    next
      case (Some pv)
      have same: "(\<exists>x\<in>set ds. (m(d \<mapsto> pv)) x = None \<and> prior_loop os x None = None)
                \<longleftrightarrow> (\<exists>x\<in>set ds. m x = None \<and> prior_loop os x None = None)"
        using nd by (intro bex_cong) auto
      have "fill_loop (d # ds) os m extra
              = fill_loop ds os (m(d \<mapsto> pv)) (extra @ [\<lparr>date = d, val = pv\<rparr>])"
        using True Some by simp
      also have "\<dots> = None \<longleftrightarrow> (\<exists>x\<in>set ds. m x = None \<and> prior_loop os x None = None)"
        unfolding Cons.IH[OF dd] same ..
      finally show ?thesis using Some by simp
    qed
  qed
qed

lemma fill_loop_Some:
  "distinct ds \<Longrightarrow> fill_loop ds os m extra = Some (m', extra') \<Longrightarrow>
   extra' = extra @ map (fill_entry os) (filter (\<lambda>d. m d = None) ds)"
proof (induction ds arbitrary: m extra)
  case Nil then show ?case by simp
next
  case (Cons d ds)
  have dd: "distinct ds" and nd: "d \<notin> set ds" using Cons.prems by auto
  show ?case
  proof (cases "m d = None")
    case False
    then show ?thesis using Cons.IH[OF dd, of m extra] Cons.prems(2) by auto
  next
    case True
    show ?thesis
    proof (cases "prior_loop os d None")
      case None
      with True Cons.prems(2) show ?thesis by simp
    next
      case (Some pv)
      have eq: "filter (\<lambda>x. (m(d \<mapsto> pv)) x = None) ds = filter (\<lambda>x. m x = None) ds"
        using nd by (intro filter_cong) auto
      have "fill_loop ds os (m(d \<mapsto> pv)) (extra @ [\<lparr>date = d, val = pv\<rparr>]) = Some (m', extra')"
        using Cons.prems(2) True Some by simp
      from Cons.IH[OF dd this] eq True Some show ?thesis
        by (simp add: fill_entry_def)
    qed
  qed
qed

lemma align_loop_Some:
  "\<forall>d\<in>set ds. sm d \<noteq> None \<and> om d \<noteq> None \<Longrightarrow>
   align_loop ds sm om sv ov = Some (sv @ map (\<lambda>d. the (sm d)) ds, ov @ map (\<lambda>d. the (om d)) ds)"
proof (induction ds arbitrary: sv ov)
  case Nil show ?case by simp
next
  case (Cons d ds)
  obtain s v where s: "sm d = Some s" and v: "om d = Some v" using Cons.prems by auto
  have "\<forall>d\<in>set ds. sm d \<noteq> None \<and> om d \<noteq> None" using Cons.prems by simp
  from Cons.IH[OF this, of "sv @ [s]" "ov @ [v]"] s v show ?case by simp
qed

lemma prior_loop_None_iff:
  "prior_loop (sort_key date obs) d None = None \<longleftrightarrow> (\<forall>ob\<in>set obs. \<not> date ob \<le> d)"
proof -
  have "sorted (map date (sort_key date obs))" by (rule sorted_sort_key)
  from prior_loop_sorted[OF this, of d None] show ?thesis
    by (auto simp: filter_empty_conv)
qed

lemma prior_loop_value:
  "\<exists>ob\<in>set obs. date ob \<le> d \<Longrightarrow>
   prior_loop (sort_key date obs) d None =
     Some (val (last (filter (\<lambda>ob. date ob \<le> d) (sort_key date obs))))"
proof -
  assume "\<exists>ob\<in>set obs. date ob \<le> d"
  hence ne: "filter (\<lambda>ob. date ob \<le> d) (sort_key date obs) \<noteq> []"
    by (auto simp: filter_empty_conv)
  have "sorted (map date (sort_key date obs))" by (rule sorted_sort_key)
  from prior_loop_sorted[OF this, of d None] ne show ?thesis by simp
qed

lemma dict_of_fill_entries:
  "distinct ds \<Longrightarrow>
   dict_of (map (fill_entry os) ds) d =
     (if d \<in> set ds then Some (the (prior_loop os d None)) else None)"
proof -
  assume dd: "distinct ds"
  have "filter (\<lambda>ob. date ob = d) (map (fill_entry os) ds)
          = map (fill_entry os) (filter (\<lambda>x. x = d) ds)"
    by (simp add: filter_map comp_def fill_entry_def)
  also have "filter (\<lambda>x. x = d) ds = (if d \<in> set ds then [d] else [])"
    using dd by (induction ds) auto
  finally have "filter (\<lambda>ob. date ob = d) (map (fill_entry os) ds)
                  = (if d \<in> set ds then [fill_entry os d] else [])"
    by simp
  then show ?thesis unfolding dict_of_lookup by (simp add: fill_entry_def)
qed

text \<open>
  \<open>forward_fill\<close> on target dates none of which is observed: it fails exactly when a
  target date has no observation on or before it, and otherwise appends one entry per
  target date, in ascending order.
\<close>

lemma forward_fill_cases:
  assumes fin: "finite T" and disj: "T \<inter> date ` set obs = {}"
  shows "forward_fill obs T =
           (if \<exists>d\<in>T. \<forall>ob\<in>set obs. \<not> date ob \<le> d then None
            else Some (sort_key date obs
                       @ map (fill_entry (sort_key date obs)) (sorted_list_of_set T)))"
proof -
  let ?os = "sort_key date obs"
  let ?ds = "sorted_list_of_set T"
  have dd: "distinct ?ds" by simp
  have sds: "set ?ds = T" using fin by simp
  have mnone: "\<forall>d\<in>set ?ds. dict_of ?os d = None"
    using disj sds by (auto simp: dict_of_sort_key dict_of_None)
  show ?thesis
  proof (cases "\<exists>d\<in>T. \<forall>ob\<in>set obs. \<not> date ob \<le> d")
    case True
    then have "\<exists>d\<in>set ?ds. dict_of ?os d = None \<and> prior_loop ?os d None = None"
      using mnone sds by (auto simp: prior_loop_None_iff)
    then have "fill_loop ?ds ?os (dict_of ?os) [] = None"
      using fill_loop_None[OF dd, of ?os "dict_of ?os" "[]"] by simp
    with True show ?thesis by (simp add: forward_fill_def)
  next
    case False
    then have "\<not> (\<exists>d\<in>set ?ds. dict_of ?os d = None \<and> prior_loop ?os d None = None)"
      using sds by (auto simp: prior_loop_None_iff)
    then have "fill_loop ?ds ?os (dict_of ?os) [] \<noteq> None"
      using fill_loop_None[OF dd, of ?os "dict_of ?os" "[]"] by simp
    then obtain m' extra' where fl: "fill_loop ?ds ?os (dict_of ?os) [] = Some (m', extra')"
      by auto
    have "filter (\<lambda>d. dict_of ?os d = None) ?ds = ?ds"
      using mnone by (simp add: filter_id_conv)
    with fill_loop_Some[OF dd fl] have ex: "extra' = map (fill_entry ?os) ?ds" by simp
    show ?thesis using False fl ex by (simp add: forward_fill_def Let_def)
  qed
qed

lemma dict_of_real: "d \<in> date ` set obs \<Longrightarrow> dict_of obs d = Some (carried obs d)"
  unfolding dict_of_lookup carried_def by (auto simp: filter_empty_conv)

lemma dict_of_filled:
  assumes fin: "finite T" and disj: "T \<inter> date ` set obs = {}"
    and ok: "\<not> (\<exists>d\<in>T. \<forall>ob\<in>set obs. \<not> date ob \<le> d)"
    and d: "d \<in> T \<union> date ` set obs"
  shows "dict_of (sort_key date obs @ map (fill_entry (sort_key date obs)) (sorted_list_of_set T)) d
           = Some (carried obs d)"
proof (cases "d \<in> T")
  case True
  then have notin: "d \<notin> date ` set obs" using disj by auto
  have ex: "\<exists>ob\<in>set obs. date ob \<le> d" using ok True by auto
  have "dict_of (map (fill_entry (sort_key date obs)) (sorted_list_of_set T)) d
          = Some (the (prior_loop (sort_key date obs) d None))"
    using True fin by (simp add: dict_of_fill_entries)
  then show ?thesis
    using notin by (simp add: dict_of_append prior_loop_value[OF ex] carried_def)
next
  case False
  then have din: "d \<in> date ` set obs" using d by auto
  have "dict_of (map (fill_entry (sort_key date obs)) (sorted_list_of_set T)) d = None"
    using False fin by (simp add: dict_of_fill_entries)
  then show ?thesis
    using dict_of_real[OF din] by (simp add: dict_of_append dict_of_sort_key)
qed

text \<open>The loop body for one candidate, as a case distinction on its input.\<close>

lemma align_candidate_cases:
  "align_candidate sp500 obs =
     (if card (date ` set sp500 - date ` set obs) > max_missing (card (date ` set sp500))
         \<or> (\<exists>d\<in>date ` set sp500 - date ` set obs. \<forall>ob\<in>set obs. \<not> date ob \<le> d)
      then Insufficient_overlap
      else Aligned
             \<lparr>al_dates = sorted_list_of_set (date ` set sp500),
              al_sp_vals = map (\<lambda>d. the (dict_of sp500 d)) (sorted_list_of_set (date ` set sp500)),
              al_other_vals = map (carried obs) (sorted_list_of_set (date ` set sp500)),
              filled_dates = sorted_list_of_set (date ` set sp500 - date ` set obs)\<rparr>)"
proof -
  let ?D = "date ` set sp500"
  let ?M = "?D - date ` set obs"
  let ?ds = "sorted_list_of_set ?D"
  have finM: "finite ?M" by simp
  have disj: "?M \<inter> date ` set obs = {}" by auto
  have spm: "\<forall>d\<in>set ?ds. dict_of sp500 d \<noteq> None" by (simp add: dict_of_None)
  show ?thesis
  proof (cases "card ?M > max_missing (card ?D)")
    case True
    then show ?thesis by (simp add: align_candidate_def Let_def)
  next
    case small: False
    show ?thesis
    proof (cases "?M = {}")
      case True
      have "\<forall>d\<in>set ?ds. dict_of sp500 d \<noteq> None \<and> dict_of obs d \<noteq> None"
        using True spm by (auto simp: dict_of_None)
      from align_loop_Some[OF this, of "[]" "[]"]
      have al: "align_loop ?ds (dict_of sp500) (dict_of obs) [] []
                  = Some (map (\<lambda>d. the (dict_of sp500 d)) ?ds, map (\<lambda>d. the (dict_of obs d)) ?ds)"
        by simp
      have "map (\<lambda>d. the (dict_of obs d)) ?ds = map (carried obs) ?ds"
      proof (rule map_cong[OF refl])
        fix d assume "d \<in> set ?ds"
        then have "d \<in> date ` set obs" using True by auto
        from dict_of_real[OF this] show "the (dict_of obs d) = carried obs d" by simp
      qed
      with al have lhs: "align_candidate sp500 obs =
          Aligned \<lparr>al_dates = ?ds, al_sp_vals = map (\<lambda>d. the (dict_of sp500 d)) ?ds,
                   al_other_vals = map (carried obs) ?ds,
                   filled_dates = sorted_list_of_set ?M\<rparr>"
        by (simp add: align_candidate_def Let_def True)
      have cond: "\<not> (card ?M > max_missing (card ?D)
                    \<or> (\<exists>d\<in>?M. \<forall>ob\<in>set obs. \<not> date ob \<le> d))"
        using small unfolding True by simp
      show ?thesis by (simp only: lhs if_not_P[OF cond])
    next
      case ne: False
      show ?thesis
      proof (cases "\<exists>d\<in>?M. \<forall>ob\<in>set obs. \<not> date ob \<le> d")
        case True
        then have "forward_fill obs ?M = None"
          using forward_fill_cases[OF finM disj] by simp
        with small ne True show ?thesis by (simp add: align_candidate_def Let_def)
      next
        case ok: False
        let ?obs' = "sort_key date obs @ map (fill_entry (sort_key date obs)) (sorted_list_of_set ?M)"
        have ff: "forward_fill obs ?M = Some ?obs'"
          using forward_fill_cases[OF finM disj] ok by simp
        have lk: "\<And>d. d \<in> set ?ds \<Longrightarrow> dict_of ?obs' d = Some (carried obs d)"
        proof -
          fix d assume "d \<in> set ?ds"
          then have "d \<in> ?M \<union> date ` set obs" by auto
          from dict_of_filled[OF finM disj ok this] show "dict_of ?obs' d = Some (carried obs d)" .
        qed
        have "\<forall>d\<in>set ?ds. dict_of sp500 d \<noteq> None \<and> dict_of ?obs' d \<noteq> None"
          using spm lk by simp
        from align_loop_Some[OF this, of "[]" "[]"]
        have al: "align_loop ?ds (dict_of sp500) (dict_of ?obs') [] []
                  = Some (map (\<lambda>d. the (dict_of sp500 d)) ?ds, map (\<lambda>d. the (dict_of ?obs' d)) ?ds)"
          by simp
        have "map (\<lambda>d. the (dict_of ?obs' d)) ?ds = map (carried obs) ?ds"
          by (rule map_cong[OF refl]) (simp add: lk)
        with al ff small ne ok show ?thesis by (simp add: align_candidate_def Let_def)
      qed
    qed
  qed
qed

lemma last_filter_sorted_max:
  assumes "sorted (map f xs)" and "y \<in> set xs" and "P y"
  shows "f y \<le> f (last (filter P xs))"
proof -
  have s: "sorted (map f (filter P xs))" using assms(1) by (rule sorted_filter)
  have m: "y \<in> set (filter P xs)" using assms by simp
  then have ne: "filter P xs \<noteq> []" by (metis empty_iff empty_set)
  obtain ys where ys: "filter P xs = ys @ [last (filter P xs)]"
    using ne by (metis append_butlast_last_id)
  show ?thesis
  proof (cases "y = last (filter P xs)")
    case True then show ?thesis by simp
  next
    case False
    then have "y \<in> set ys" using m ys by (metis Un_iff empty_iff empty_set set_ConsD set_append)
    moreover have "sorted (map f ys @ [f (last (filter P xs))])" using s ys by (metis list.simps(8,9) map_append)
    ultimately show ?thesis by (auto simp: sorted_append)
  qed
qed

lemma filter_key_unique:
  "distinct (map f xs) \<Longrightarrow> y \<in> set xs \<Longrightarrow> filter (\<lambda>x. f x = f y) xs = [y]"
proof (induction xs)
  case Nil then show ?case by simp
next
  case (Cons x xs)
  have nx: "\<forall>z\<in>set xs. f z \<noteq> f x" and dx: "distinct (map f xs)"
    using Cons.prems(1) by (auto simp: image_iff)
  show ?case
  proof (cases "x = y")
    case True
    have "filter (\<lambda>x. f x = f y) xs = []"
      using nx True by (simp add: filter_empty_conv)
    with True show ?thesis by simp
  next
    case False
    then have yin: "y \<in> set xs" using Cons.prems(2) by simp
    then have "f x \<noteq> f y" using nx by metis
    with Cons.IH[OF dx yin] show ?thesis by simp
  qed
qed

lemma carried_locf:
  assumes ex: "\<exists>ob\<in>set obs. date ob \<le> d" and notin: "d \<notin> date ` set obs"
  shows "\<exists>ob\<in>set obs. date ob \<le> d \<and> (\<forall>ob'\<in>set obs. date ob' \<le> d \<longrightarrow> date ob' \<le> date ob)
           \<and> carried obs d = val ob"
proof -
  let ?fs = "filter (\<lambda>ob. date ob \<le> d) (sort_key date obs)"
  let ?x = "last ?fs"
  have ne: "?fs \<noteq> []" using ex by (auto simp: filter_empty_conv)
  then have xin: "?x \<in> set ?fs" by (rule last_in_set)
  then have x1: "?x \<in> set obs" and x2: "date ?x \<le> d" by auto
  have x3: "\<forall>ob'\<in>set obs. date ob' \<le> d \<longrightarrow> date ob' \<le> date ?x"
  proof (intro ballI impI)
    fix ob' assume "ob' \<in> set obs" and "date ob' \<le> d"
    then show "date ob' \<le> date ?x"
      using last_filter_sorted_max[of date "sort_key date obs" ob' "\<lambda>ob. date ob \<le> d"]
      by simp
  qed
  have "carried obs d = val ?x" using notin by (simp add: carried_def)
  with x1 x2 x3 show ?thesis by blast
qed

lemma max_missing_div: "max_missing n = n div 20"
proof -
  have e: "(1.0 - MIN_OVERLAP_RATIO) * real n = real n / real 20"
    by (simp add: MIN_OVERLAP_RATIO_def)
  show ?thesis unfolding max_missing_def e floor_divide_of_nat_eq by simp
qed

text \<open>
  The threshold in binary64: rounding moves a positive number by at most its
  \<open>2 ^ 53\<close>-th part, which is too little to carry the product across an integer.
\<close>

lemma f64_exponent_le:
  assumes "x > 0"
  shows "2 powi (f64_exponent x) \<le> x"
proof -
  obtain p q where pq: "quotient_of x = (p, q)" by (cases "quotient_of x")
  have q: "q > 0" using quotient_of_denom_pos[OF pq] .
  have x: "x = of_int p / of_int q" using quotient_of_div[OF pq] .
  have p: "p > 0" using assms q unfolding x by (simp add: zero_less_divide_iff)
  let ?k = "bitlen p - bitlen q"
  show ?thesis
  proof (cases "2 powi ?k \<le> x")
    case True
    then show ?thesis by (simp add: f64_exponent_def pq)
  next
    case False
    have bp: "2 ^ nat (bitlen p - 1) \<le> p" using bitlen_bounds[OF p] by simp
    have bq: "q < 2 ^ nat (bitlen q)" using bitlen_bounds[OF q] by simp
    have bp1: "bitlen p \<ge> 1" using p by (simp add: bitlen_alt_def)
    have bq0: "bitlen q \<ge> 0" by (rule bitlen_nonneg)
    have ke: "?k - 1 = (bitlen p - 1) - bitlen q" by simp
    have "(2::rat) powi (?k - 1) = 2 powi ((bitlen p - 1) - bitlen q)"
      by (simp only: ke)
    also have "\<dots> = 2 powi (bitlen p - 1) / 2 powi (bitlen q)"
      by (rule power_int_diff) simp
    also have "\<dots> = 2 ^ nat (bitlen p - 1) / 2 ^ nat (bitlen q)"
      using bp1 bq0 by (simp add: power_int_def)
    also have "\<dots> \<le> of_int p / of_int q"
    proof -
      have 1: "(2::rat) ^ nat (bitlen p - 1) \<le> of_int p"
        using bp by (metis of_int_le_iff of_int_numeral of_int_power)
      have 2: "(of_int q :: rat) \<le> 2 ^ nat (bitlen q)"
        using bq by (metis less_imp_le of_int_le_iff of_int_numeral of_int_power)
      have 3: "(0::rat) < of_int q" using q by simp
      have 4: "(0::rat) \<le> of_int p" using p by simp
      show ?thesis using 4 1 3 2 by (rule frac_le)
    qed
    finally have "2 powi (?k - 1) \<le> x" unfolding x .
    with False show ?thesis by (simp add: f64_exponent_def pq)
  qed
qed

lemma round_half_even_err: "\<bar>of_int (round_half_even m) - m\<bar> \<le> 1 / 2"
proof -
  have "of_int \<lfloor>m\<rfloor> \<le> m" "m < of_int \<lfloor>m\<rfloor> + 1" by linarith+
  then show ?thesis
    by (auto simp: round_half_even_def Let_def abs_le_iff)
qed

lemma f64_rel_err:
  assumes "x > 0"
  shows "\<bar>f64 x - x\<bar> \<le> x / 2 ^ 53"
proof -
  let ?e = "f64_exponent x"
  let ?u = "(2::rat) powi (?e - 52)"
  have u: "?u > 0" by simp
  have fx: "f64 x = of_int (round_half_even (x / ?u)) * ?u"
    using assms by (simp add: f64_def Let_def)
  have "\<bar>f64 x - x\<bar> = \<bar>of_int (round_half_even (x / ?u)) - x / ?u\<bar> * ?u"
  proof -
    have "f64 x - x = (of_int (round_half_even (x / ?u)) - x / ?u) * ?u"
      unfolding fx using u by (simp add: field_simps)
    then show ?thesis using u by (simp add: abs_mult)
  qed
  also have "\<dots> \<le> (1 / 2) * ?u"
    using round_half_even_err[of "x / ?u"] u by (intro mult_right_mono) auto
  also have "\<dots> = 2 powi ?e / 2 ^ 53"
    by (simp add: power_int_diff)
  also have "\<dots> \<le> x / 2 ^ 53"
    using f64_exponent_le[OF assms] by (simp add: divide_right_mono)
  finally show ?thesis .
qed

lemma f64_ratio: "f64 (1 - f64 (95 / 100)) = 450359962737050 / 2 ^ 53"
  by code_simp

lemma max_missing_f64_eq:
  assumes "n < 2 ^ 49"
  shows "max_missing_f64 n = n div 20"
proof (cases "n = 0")
  case True
  then show ?thesis by (simp add: max_missing_f64_def f64_def)
next
  case False
  let ?y = "450359962737050 / 2 ^ 53 * (of_nat n :: rat)"
  have ypos: "?y > 0" using False by simp
  have e: "\<bar>f64 ?y - ?y\<bar> \<le> ?y / 2 ^ 53" by (rule f64_rel_err[OF ypos])
  have lo: "?y - ?y / 2 ^ 53 \<le> f64 ?y" and hi: "f64 ?y \<le> ?y + ?y / 2 ^ 53"
    using e by (auto simp only: abs_le_iff)
  have n: "(of_nat n :: rat) = 20 * of_nat (n div 20) + of_nat (n mod 20)"
    by (metis mult_div_mod_eq of_nat_add of_nat_mult of_nat_numeral)
  have r: "(of_nat (n mod 20) :: rat) \<le> 19"
  proof -
    have "n mod 20 \<le> 19" by simp
    then show ?thesis by (metis of_nat_le_iff of_nat_numeral)
  qed
  have r0: "(of_nat (n mod 20) :: rat) \<ge> 0" by simp
  have nb: "(of_nat n :: rat) < 2 ^ 49"
    using assms by (metis of_nat_less_iff of_nat_numeral of_nat_power)
  have 1: "of_nat (n div 20) \<le> f64 ?y" using lo n r0 by simp
  have 2: "f64 ?y < of_nat (n div 20) + 1" using hi n r nb by simp
  have fl: "\<lfloor>f64 ?y\<rfloor> = int (n div 20)"
    by (rule floor_unique) (use 1 2 in auto)
  show ?thesis unfolding max_missing_f64_def f64_ratio fl by simp
qed

lemma max_missing_f64_eq_max_missing: "n < 2 ^ 49 \<Longrightarrow> max_missing_f64 n = max_missing n"
  by (simp add: max_missing_f64_eq max_missing_div)

lemma f64_examples:
  "f64 (1 / 10) = 3602879701896397 / 2 ^ 55"
  "f64 (f64 (1 / 10) + f64 (2 / 10)) = 5404319552844596 / 2 ^ 54"
  "f64 (95 / 100) = 8556839292003942 / 2 ^ 53"
  "map max_missing_f64 [0, 19, 20, 42, 59, 60, 61] = [0, 0, 1, 2, 2, 3, 3]"
  by code_simp+

text \<open>The examples, evaluated.\<close>

lemma ex_gap_aligned: "align_candidate ex_sp500 ex_obs_gap = Aligned ex_aligned_gap"
  by code_simp

lemma ex_curated_eval: "curated ex_all_corr = ex_curated"
  by code_simp

lemma ex_funny_entry_curated: "ex_funny_entry \<in> set (curated ex_all_corr)"
  unfolding ex_curated_eval by code_simp

lemma ex_other_entry_curated: "ex_other_entry \<in> set (curated ex_all_corr)"
  unfolding ex_curated_eval by code_simp

text \<open>
  Six rows of the example are classified financial with \<open>ICE BofA\<close> in the title and
  four with \<open>CBOE\<close> or \<open>VIX\<close>; five and three of them are kept.
\<close>

lemma ex_curated_caps_reached:
  "length (filter (\<lambda>c. is_interesting_financial c \<and> sublist ''ICE BofA'' (title c))
             (deduped (reliable ex_all_corr))) = 6
   \<and> length (filter (\<lambda>e. category e = ''financial'' \<and> sublist ''ICE BofA'' (title e))
               (curated ex_all_corr)) = 5
   \<and> length (filter (\<lambda>c. is_interesting_financial c
                          \<and> (sublist ''CBOE'' (title c) \<or> sublist ''VIX'' (title c)))
               (deduped (reliable ex_all_corr))) = 4
   \<and> length (filter (\<lambda>e. category e = ''financial''
                          \<and> (sublist ''CBOE'' (title e) \<or> sublist ''VIX'' (title e)))
               (curated ex_all_corr)) = 3"
  unfolding ex_curated_eval by code_simp

section \<open>Claims on curate\_series.py\<close>

text \<open>
  Claim C8. Deduplication keeps exactly the rows that no earlier row shares its title
  with, in input order: the row at index \<open>i\<close> stays if and only if no row at an index
  \<open>j < i\<close> has the same title. So every title of the input keeps its first row and
  loses the later ones: the titles of the result are those of the input, each once.
  Deduplicating the result again changes nothing.
\<close>

theorem deduped_first_occurrence_idempotent:
  "deduped rows =
     map ((!) rows) (filter (\<lambda>i. \<forall>j<i. title (rows ! j) \<noteq> title (rows ! i)) [0..<length rows])
   \<and> distinct (map title (deduped rows))
   \<and> title ` set (deduped rows) = title ` set rows
   \<and> deduped (deduped rows) = deduped rows"
  (is "?A \<and> ?B \<and> ?C \<and> ?D")
proof -
  have A: ?A
    unfolding deduped_def using dedup_loop_index[of rows "{}"] by simp
  have B: ?B
    unfolding deduped_def using dedup_loop_titles[of rows "{}"] by simp
  have C: ?C
    unfolding deduped_def using dedup_loop_title_set[of rows "{}"] by simp
  have D: ?D
    unfolding deduped_def
    using dedup_loop_fix[of "dedup_loop rows {} []" "{}" "[]"] dedup_loop_titles[of rows "{}"]
    by simp
  from A B C D show ?thesis by (intro conjI)
qed

theorem deduped_first_occurrence_idempotent_witness:
  "deduped ex_dup_rows = [ex_dup_rows ! 0, ex_dup_rows ! 2]
   \<and> deduped (deduped ex_dup_rows) = deduped ex_dup_rows"
proof -
  have f: "filter (\<lambda>i. \<forall>j<i. title (ex_dup_rows ! j) \<noteq> title (ex_dup_rows ! i))
             [0..<length ex_dup_rows] = [0, 2]"
    by code_simp
  note inst = deduped_first_occurrence_idempotent[of ex_dup_rows, unfolded f]
  have 1: "deduped ex_dup_rows = map ((!) ex_dup_rows) [0, 2]"
    by (rule conjunct1[OF inst])
  have 2: "deduped (deduped ex_dup_rows) = deduped ex_dup_rows"
    by (rule conjunct2[OF conjunct2[OF conjunct2[OF inst]]])
  from 1 have "deduped ex_dup_rows = [ex_dup_rows ! 0, ex_dup_rows ! 2]" by simp
  then show ?thesis using 2 by (rule conjI)
qed

text \<open>
  Claim C5. The classification loop puts a row into \<open>funny_series\<close> when the funny rule
  holds, else into \<open>financial_series\<close> when the financial rule holds, else into
  \<open>other_series\<close> when its \<open>abs_r\<close> exceeds 0.3, and into none of them otherwise; the
  three lists are the three filters of the deduplicated rows, which exclude one another.
  The funny rule reads the lower-cased title for a keyword of \<open>funny_keywords\<close> and asks
  \<open>abs_r > 0.15\<close>; the financial rule reads the title as it is for a keyword of
  \<open>interesting\<close> and asks \<open>abs_r > 0.1\<close>. Every entry of the curated output is a
  deduplicated row that matches a rule, under the category of the first rule it matches;
  so a row that matches no rule is in the output under no category.
\<close>

theorem classification_first_match:
  "classify_loop rows ([], [], []) =
     (filter (\<lambda>c. is_funny c \<and> abs_r c > 0.15) rows,
      filter (\<lambda>c. \<not> (is_funny c \<and> abs_r c > 0.15)
                   \<and> is_interesting_financial c \<and> abs_r c > 0.1) rows,
      filter (\<lambda>c. \<not> (is_funny c \<and> abs_r c > 0.15)
                   \<and> \<not> (is_interesting_financial c \<and> abs_r c > 0.1)
                   \<and> abs_r c > 0.3) rows)
   \<and> set (fst (classify_loop rows ([], [], [])))
         \<inter> set (fst (snd (classify_loop rows ([], [], [])))) = {}
   \<and> set (fst (classify_loop rows ([], [], [])))
         \<inter> set (snd (snd (classify_loop rows ([], [], [])))) = {}
   \<and> set (fst (snd (classify_loop rows ([], [], []))))
         \<inter> set (snd (snd (classify_loop rows ([], [], [])))) = {}
   \<and> (is_funny x \<longleftrightarrow> (\<exists>kw\<in>set funny_keywords. sublist kw (lower (title x))))
   \<and> (is_interesting_financial x \<longleftrightarrow> (\<exists>kw\<in>set interesting. sublist kw (title x)))
   \<and> (\<forall>e\<in>set (curated all_corr). \<exists>c\<in>set (deduped (reliable all_corr)).
         e = with_category c (category e)
         \<and> category e =
             (if is_funny c \<and> abs_r c > 0.15 then ''funny''
              else if is_interesting_financial c \<and> abs_r c > 0.1 then ''financial''
              else ''other'')
         \<and> (is_funny c \<and> abs_r c > 0.15
             \<or> is_interesting_financial c \<and> abs_r c > 0.1
             \<or> abs_r c > 0.3))"
  (is "?A \<and> ?E1 \<and> ?E2 \<and> ?E3 \<and> ?B \<and> ?C \<and> ?D")
proof -
  have A: ?A by (simp add: classify_loop_acc)
  have E1: ?E1 by (auto simp: classify_loop_acc)
  have E2: ?E2 by (auto simp: classify_loop_acc)
  have E3: ?E3 by (auto simp: classify_loop_acc)
  have B: ?B by (simp add: is_funny_def Let_def any_in_iff)
  have C: ?C by (simp add: is_interesting_financial_def Let_def any_in_iff)
  have D: ?D
  proof
    fix e assume "e \<in> set (curated all_corr)"
    from curated_members[OF this] obtain c0 where c0: "c0 \<in> set (deduped (reliable all_corr))"
      and cases: "(e = with_category c0 ''funny'' \<and> is_funny c0 \<and> abs_r c0 > 0.15)
         \<or> (e = with_category c0 ''financial'' \<and> \<not> (is_funny c0 \<and> abs_r c0 > 0.15)
              \<and> is_interesting_financial c0 \<and> abs_r c0 > 0.1)
         \<or> (e = with_category c0 ''other'' \<and> \<not> (is_funny c0 \<and> abs_r c0 > 0.15)
              \<and> \<not> (is_interesting_financial c0 \<and> abs_r c0 > 0.1) \<and> abs_r c0 > 0.3
              \<and> \<not> str_in ''ICE BofA'' (title c0) \<and> \<not> str_in ''CBOE'' (title c0))"
      by blast
    from cases have "e = with_category c0 (category e)
         \<and> category e =
             (if is_funny c0 \<and> abs_r c0 > 0.15 then ''funny''
              else if is_interesting_financial c0 \<and> abs_r c0 > 0.1 then ''financial''
              else ''other'')
         \<and> (is_funny c0 \<and> abs_r c0 > 0.15
             \<or> is_interesting_financial c0 \<and> abs_r c0 > 0.1
             \<or> abs_r c0 > 0.3)"
      by (elim disjE conjE) simp_all
    with c0 show "\<exists>c\<in>set (deduped (reliable all_corr)).
         e = with_category c (category e)
         \<and> category e =
             (if is_funny c \<and> abs_r c > 0.15 then ''funny''
              else if is_interesting_financial c \<and> abs_r c > 0.1 then ''financial''
              else ''other'')
         \<and> (is_funny c \<and> abs_r c > 0.15
             \<or> is_interesting_financial c \<and> abs_r c > 0.1
             \<or> abs_r c > 0.3)" by (rule bexI[rotated])
  qed
  from A E1 E2 E3 B C D show ?thesis by (intro conjI)
qed

theorem classification_first_match_witness:
  "ex_funny_entry \<in> set (curated ex_all_corr)
   \<and> (\<exists>c\<in>set (deduped (reliable ex_all_corr)).
         ex_funny_entry = with_category c (category ex_funny_entry)
         \<and> category ex_funny_entry =
             (if is_funny c \<and> abs_r c > 0.15 then ''funny''
              else if is_interesting_financial c \<and> abs_r c > 0.1 then ''financial''
              else ''other'')
         \<and> (is_funny c \<and> abs_r c > 0.15
             \<or> is_interesting_financial c \<and> abs_r c > 0.1
             \<or> abs_r c > 0.3))"
  using classification_first_match[of ex_dup_rows "hd ex_dup_rows" ex_all_corr]
        ex_funny_entry_curated
  by blast

text \<open>
  Claim C6. In the curated output, at most 5 entries of category \<open>financial\<close> have
  \<open>ICE BofA\<close> in the title and at most 3 have \<open>CBOE\<close> or \<open>VIX\<close> in the title. No entry
  of category \<open>other\<close> has \<open>ICE BofA\<close>, \<open>CBOE\<close> or \<open>VIX\<close> in its title: the loop over
  \<open>other_series\<close> skips the first two, whether or not the family has an entry already,
  and a row with \<open>VIX\<close> in its title and \<open>abs_r > 0.3\<close> is never classified as other.
\<close>

theorem family_caps:
  "length (filter (\<lambda>e. category e = ''financial'' \<and> sublist ''ICE BofA'' (title e))
             (curated all_corr)) \<le> 5
   \<and> length (filter (\<lambda>e. category e = ''financial''
                          \<and> (sublist ''CBOE'' (title e) \<or> sublist ''VIX'' (title e)))
               (curated all_corr)) \<le> 3
   \<and> (\<forall>e\<in>set (curated all_corr). category e = ''other'' \<longrightarrow>
         \<not> sublist ''ICE BofA'' (title e) \<and> \<not> sublist ''CBOE'' (title e)
         \<and> \<not> sublist ''VIX'' (title e))"
  (is "?A \<and> ?B \<and> ?C")
proof -
  let ?d = "deduped (reliable all_corr)"
  let ?FU = "filter (\<lambda>c. is_funny c \<and> abs_r c > 0.15) ?d"
  let ?FI = "filter (\<lambda>c. \<not> (is_funny c \<and> abs_r c > 0.15)
                             \<and> is_interesting_financial c \<and> abs_r c > 0.1) ?d"
  let ?cur1 = "funny_loop (sort_abs_r_desc ?FU) []"
  let ?cur2 = "financial_loop (sort_abs_r_desc ?FI) 0 0 ?cur1"
  have b0: "length (filter is_baml ?cur1) \<le> min 0 5"
    by (simp add: funny_loop_eq is_baml_def filter_map comp_def)
  have v0: "length (filter is_vix ?cur1) \<le> min 0 3"
    by (simp add: funny_loop_eq is_vix_def filter_map comp_def)
  have caps: "length (filter is_baml ?cur2) \<le> 5 \<and> length (filter is_vix ?cur2) \<le> 3"
    by (rule financial_loop_caps[OF b0 v0])
  have ob: "filter is_baml (other_loop xs cur) = filter is_baml cur" for xs cur
    by (simp add: other_loop_eq is_baml_def filter_map comp_def)
  have ov: "filter is_vix (other_loop xs cur) = filter is_vix cur" for xs cur
    by (simp add: other_loop_eq is_vix_def filter_map comp_def)
  have "length (filter is_baml (curated all_corr)) \<le> 5"
    unfolding curated_unfold length_filter_sort_abs_r_desc ob using caps by simp
  then have A: ?A
    by (simp add: is_baml_def[abs_def] str_in_sublist)
  have "length (filter is_vix (curated all_corr)) \<le> 3"
    unfolding curated_unfold length_filter_sort_abs_r_desc ov using caps by simp
  then have B: ?B
    by (simp add: is_vix_def[abs_def] str_in_sublist)
  have C: ?C
  proof (intro ballI impI)
    fix e assume e: "e \<in> set (curated all_corr)" and cat: "category e = ''other''"
    from curated_members[OF e] cat obtain c where
      ec: "e = with_category c ''other''"
      and nf: "\<not> (is_interesting_financial c \<and> abs_r c > 0.1)" and hi: "abs_r c > 0.3"
      and nb: "\<not> str_in ''ICE BofA'' (title c)" and nc: "\<not> str_in ''CBOE'' (title c)"
      by auto
    have "\<not> is_interesting_financial c" using nf hi by auto
    then have "\<not> sublist ''VIX'' (title c)"
      by (auto simp: is_interesting_financial_def Let_def any_in_iff interesting_def)
    with ec nb nc show "\<not> sublist ''ICE BofA'' (title e) \<and> \<not> sublist ''CBOE'' (title e)
           \<and> \<not> sublist ''VIX'' (title e)"
      by (simp add: str_in_sublist)
  qed
  from A B C show ?thesis by (intro conjI)
qed

theorem family_caps_witness:
  "ex_other_entry \<in> set (curated ex_all_corr) \<and> category ex_other_entry = ''other''
   \<and> \<not> sublist ''ICE BofA'' (title ex_other_entry)
   \<and> \<not> sublist ''CBOE'' (title ex_other_entry)
   \<and> \<not> sublist ''VIX'' (title ex_other_entry)"
proof -
  have c: "category ex_other_entry = ''other''" by (simp add: ex_other_entry_def)
  from family_caps[of ex_all_corr] ex_other_entry_curated c show ?thesis by blast
qed

section \<open>Claims on compute\_correlations.py\<close>

text \<open>
  Claim C7. The script drops a series from \<open>filtered\<close> if and only if its id is in
  \<open>EXCLUDE_IDS\<close> or among the ids fetched for the excluded category, or its lower-cased
  title contains a keyword of \<open>EXCLUDE_KEYWORDS\<close>. The function \<open>is_excluded\<close> alone tests
  the static ids and the keywords; the script tests the fetched ids beside it. A series
  titled \<open>Gold Price, London\<close> is excluded whatever its id; one titled
  \<open>Initial Claims, Unemployment Insurance\<close> matches no keyword, and is kept exactly when
  its id is in neither id set.
\<close>

theorem exclusion_decision:
  "filtered exclude_from_category all_series =
     filter (\<lambda>s. \<not> (sid s \<in> EXCLUDE_IDS \<union> exclude_from_category
                     \<or> (\<exists>kw\<in>set EXCLUDE_KEYWORDS. sublist kw (lower (stitle s)))))
       all_series
   \<and> (is_excluded s \<longleftrightarrow>
        sid s \<in> EXCLUDE_IDS \<or> (\<exists>kw\<in>set EXCLUDE_KEYWORDS. sublist kw (lower (stitle s))))
   \<and> (stitle s = ''Gold Price, London'' \<longrightarrow>
        is_excluded s \<and> s \<notin> set (filtered exclude_from_category all_series))
   \<and> (stitle s = ''Initial Claims, Unemployment Insurance'' \<longrightarrow>
        (is_excluded s \<longleftrightarrow> sid s \<in> EXCLUDE_IDS)
        \<and> (s \<in> set (filtered exclude_from_category all_series) \<longleftrightarrow>
             s \<in> set all_series \<and> sid s \<notin> EXCLUDE_IDS \<union> exclude_from_category))"
  (is "?A \<and> ?B \<and> ?C \<and> ?D")
proof -
  have B: ?B by (auto simp: is_excluded_def Let_def any_in_iff)
  have A: ?A
    unfolding filtered_def effective_excluded_ids_def
    by (rule filter_cong[OF refl]) (auto simp: is_excluded_def Let_def any_in_iff)
  have gold: "any_in EXCLUDE_KEYWORDS (lower ''Gold Price, London'')" by code_simp
  have claims: "\<not> any_in EXCLUDE_KEYWORDS (lower ''Initial Claims, Unemployment Insurance'')"
    by code_simp
  have C: ?C
  proof
    assume t: "stitle s = ''Gold Price, London''"
    then have "is_excluded s" using gold by (simp add: is_excluded_def Let_def)
    then show "is_excluded s \<and> s \<notin> set (filtered exclude_from_category all_series)"
      by (simp add: filtered_def)
  qed
  have D: ?D
  proof
    assume t: "stitle s = ''Initial Claims, Unemployment Insurance''"
    then have e: "is_excluded s \<longleftrightarrow> sid s \<in> EXCLUDE_IDS"
      using claims by (simp add: is_excluded_def Let_def)
    then show "(is_excluded s \<longleftrightarrow> sid s \<in> EXCLUDE_IDS)
        \<and> (s \<in> set (filtered exclude_from_category all_series) \<longleftrightarrow>
             s \<in> set all_series \<and> sid s \<notin> EXCLUDE_IDS \<union> exclude_from_category)"
      by (auto simp: filtered_def effective_excluded_ids_def)
  qed
  from A B C D show ?thesis by (intro conjI)
qed

theorem exclusion_decision_witness:
  "stitle ex_gold = ''Gold Price, London'' \<and> is_excluded ex_gold
   \<and> ex_gold \<notin> set (filtered {''SP500''} [ex_gold, ex_claims])
   \<and> stitle ex_claims = ''Initial Claims, Unemployment Insurance'' \<and> \<not> is_excluded ex_claims
   \<and> ex_claims \<in> set (filtered {''SP500''} [ex_gold, ex_claims])"
proof -
  have g: "stitle ex_gold = ''Gold Price, London''" by (simp add: ex_gold_def)
  have c: "stitle ex_claims = ''Initial Claims, Unemployment Insurance''"
    by (simp add: ex_claims_def)
  have i: "sid ex_claims \<notin> EXCLUDE_IDS \<union> {''SP500''}" by code_simp
  have m: "ex_claims \<in> set [ex_gold, ex_claims]" by simp
  from exclusion_decision[of "{''SP500''}" "[ex_gold, ex_claims]" ex_gold] g
  have 1: "is_excluded ex_gold \<and> ex_gold \<notin> set (filtered {''SP500''} [ex_gold, ex_claims])"
    by blast
  from exclusion_decision[of "{''SP500''}" "[ex_gold, ex_claims]" ex_claims] c i m
  have 2: "\<not> is_excluded ex_claims \<and> ex_claims \<in> set (filtered {''SP500''} [ex_gold, ex_claims])"
    by blast
  from g c 1 2 show ?thesis by blast
qed

text \<open>
  Claim C1. With \<open>D\<close> the benchmark dates and \<open>max_missing (card D)\<close> the threshold
  \<open>int((1.0 - 0.95) * len(D))\<close>: a candidate that misses more benchmark dates than the
  threshold is rejected for insufficient overlap. The test comes before the call of
  \<open>forward_fill\<close>, so the rejection holds whatever the fill would return (in the example
  below the fill would succeed), and no aligned value or filled date results. For a candidate that is aligned, and so for every accepted
  one, \<open>filled_dates\<close> lists distinct benchmark dates, at most the threshold in number.
\<close>

theorem overlap_threshold_rejects_before_fill:
  "(card (date ` set sp500 - date ` set obs) > max_missing (card (date ` set sp500))
      \<longrightarrow> align_candidate sp500 obs = Insufficient_overlap)
   \<and> (\<forall>a. align_candidate sp500 obs = Aligned a \<longrightarrow>
          length (filled_dates a) \<le> max_missing (card (date ` set sp500))
          \<and> distinct (filled_dates a)
          \<and> set (filled_dates a) \<subseteq> date ` set sp500)
   \<and> max_missing n = nat \<lfloor>(1 - 0.95) * real n\<rfloor>"
  (is "?A \<and> ?B \<and> ?C")
proof -
  let ?M = "date ` set sp500 - date ` set obs"
  have A: ?A by (simp add: align_candidate_cases)
  have B: ?B
  proof (intro allI impI)
    fix a assume a: "align_candidate sp500 obs = Aligned a"
    have small: "\<not> card ?M > max_missing (card (date ` set sp500))"
      using a unfolding align_candidate_cases[of sp500 obs] by (auto split: if_splits)
    have fd: "filled_dates a = sorted_list_of_set ?M"
      using a unfolding align_candidate_cases[of sp500 obs] by (auto split: if_splits)
    have 1: "length (filled_dates a) \<le> max_missing (card (date ` set sp500))"
      using small unfolding fd by simp
    have 2: "distinct (filled_dates a)" unfolding fd by simp
    have 3: "set (filled_dates a) \<subseteq> date ` set sp500" unfolding fd by auto
    from 1 2 3 show "length (filled_dates a) \<le> max_missing (card (date ` set sp500))
          \<and> distinct (filled_dates a)
          \<and> set (filled_dates a) \<subseteq> date ` set sp500" by (intro conjI)
  qed
  have C: ?C by (simp add: max_missing_def MIN_OVERLAP_RATIO_def)
  from A B C show ?thesis by (intro conjI)
qed

theorem overlap_threshold_rejects_before_fill_witness:
  "card (date ` set ex_sp500 - date ` set ex_obs_sparse)
     > max_missing (card (date ` set ex_sp500))
   \<and> forward_fill ex_obs_sparse (date ` set ex_sp500 - date ` set ex_obs_sparse) \<noteq> None
   \<and> align_candidate ex_sp500 ex_obs_sparse = Insufficient_overlap
   \<and> align_candidate ex_sp500 ex_obs_gap = Aligned ex_aligned_gap
   \<and> length (filled_dates ex_aligned_gap) \<le> max_missing (card (date ` set ex_sp500))
   \<and> set (filled_dates ex_aligned_gap) \<subseteq> date ` set ex_sp500"
proof -
  have h: "card (date ` set ex_sp500 - date ` set ex_obs_sparse)
             > max_missing (card (date ` set ex_sp500))"
    by code_simp
  from overlap_threshold_rejects_before_fill[of ex_sp500 ex_obs_sparse] h
  have 1: "align_candidate ex_sp500 ex_obs_sparse = Insufficient_overlap" by blast
  from overlap_threshold_rejects_before_fill[of ex_sp500 ex_obs_gap] ex_gap_aligned
  have 2: "length (filled_dates ex_aligned_gap) \<le> max_missing (card (date ` set ex_sp500))
           \<and> set (filled_dates ex_aligned_gap) \<subseteq> date ` set ex_sp500" by blast
  have f: "forward_fill ex_obs_sparse (date ` set ex_sp500 - date ` set ex_obs_sparse) \<noteq> None"
    by code_simp
  from h f 1 ex_gap_aligned 2 show ?thesis by blast
qed

text \<open>
  Claim C2. A candidate within the threshold that misses a benchmark date on or before
  which it has no observation is rejected for insufficient overlap; it gets no aligned
  values at all. For a candidate that is aligned, and so for every accepted one, each
  filled date is on or after the date of the candidate's earliest observation.
\<close>

theorem fill_before_first_observation_rejected:
  "(card (date ` set sp500 - date ` set obs) \<le> max_missing (card (date ` set sp500)) \<longrightarrow>
      (\<exists>d\<in>date ` set sp500 - date ` set obs. \<forall>ob\<in>set obs. \<not> date ob \<le> d) \<longrightarrow>
      align_candidate sp500 obs = Insufficient_overlap)
   \<and> (\<forall>a. align_candidate sp500 obs = Aligned a \<longrightarrow>
          (\<forall>d\<in>set (filled_dates a). obs \<noteq> [] \<and> Min (date ` set obs) \<le> d))"
proof (intro conjI impI allI ballI)
  assume "\<exists>d\<in>date ` set sp500 - date ` set obs. \<forall>ob\<in>set obs. \<not> date ob \<le> d"
  then show "align_candidate sp500 obs = Insufficient_overlap"
    by (simp add: align_candidate_cases)
next
  fix a d assume a: "align_candidate sp500 obs = Aligned a" and d: "d \<in> set (filled_dates a)"
  let ?M = "date ` set sp500 - date ` set obs"
  have ok: "\<not> (\<exists>d\<in>?M. \<forall>ob\<in>set obs. \<not> date ob \<le> d)"
    using a unfolding align_candidate_cases[of sp500 obs] by (auto split: if_splits)
  have fd: "filled_dates a = sorted_list_of_set ?M"
    using a unfolding align_candidate_cases[of sp500 obs] by (auto split: if_splits)
  have "d \<in> ?M" using d unfolding fd by simp
  with ok obtain ob where ob: "ob \<in> set obs" "date ob \<le> d" by blast
  then show "obs \<noteq> []" by auto
  have "Min (date ` set obs) \<le> date ob" using ob(1) by simp
  with ob(2) show "Min (date ` set obs) \<le> d" by simp
qed

theorem fill_before_first_observation_rejected_witness:
  "card (date ` set ex_sp500 - date ` set ex_obs_late) \<le> max_missing (card (date ` set ex_sp500))
   \<and> (\<exists>d\<in>date ` set ex_sp500 - date ` set ex_obs_late. \<forall>ob\<in>set ex_obs_late. \<not> date ob \<le> d)
   \<and> align_candidate ex_sp500 ex_obs_late = Insufficient_overlap
   \<and> align_candidate ex_sp500 ex_obs_gap = Aligned ex_aligned_gap
   \<and> ''2024-01-10'' \<in> set (filled_dates ex_aligned_gap)
   \<and> Min (date ` set ex_obs_gap) \<le> ''2024-01-10''"
proof -
  have h1: "card (date ` set ex_sp500 - date ` set ex_obs_late)
              \<le> max_missing (card (date ` set ex_sp500))"
    by code_simp
  have h2: "\<exists>d\<in>date ` set ex_sp500 - date ` set ex_obs_late.
              \<forall>ob\<in>set ex_obs_late. \<not> date ob \<le> d"
    by code_simp
  have h3: "''2024-01-10'' \<in> set (filled_dates ex_aligned_gap)"
    by (simp add: ex_aligned_gap_def)
  from fill_before_first_observation_rejected[of ex_sp500 ex_obs_late] h1 h2
  have 1: "align_candidate ex_sp500 ex_obs_late = Insufficient_overlap" by blast
  from fill_before_first_observation_rejected[of ex_sp500 ex_obs_gap] ex_gap_aligned h3
  have 2: "Min (date ` set ex_obs_gap) \<le> ''2024-01-10''" by blast
  from h1 h2 1 ex_gap_aligned h3 2 show ?thesis by blast
qed

text \<open>
  Claim C3. In an aligned candidate the value at a filled date \<open>d\<close> is the value of an
  observation of the candidate dated on or before \<open>d\<close>, and no observation of the
  candidate dated on or before \<open>d\<close> is later than that one. So the fill carries the most
  recent observation forward and reads nothing dated after \<open>d\<close>. The aligned values stand
  at the positions of their dates, and every filled date is one of these dates.
\<close>

theorem filled_value_is_carried_forward:
  "align_candidate sp500 obs = Aligned a \<Longrightarrow>
     length (al_other_vals a) = length (al_dates a)
     \<and> set (filled_dates a) \<subseteq> set (al_dates a)
     \<and> (\<forall>i<length (al_dates a). al_dates a ! i \<in> set (filled_dates a) \<longrightarrow>
          (\<exists>ob\<in>set obs. date ob \<le> al_dates a ! i
             \<and> (\<forall>ob'\<in>set obs. date ob' \<le> al_dates a ! i \<longrightarrow> date ob' \<le> date ob)
             \<and> al_other_vals a ! i = val ob))"
proof -
  assume a: "align_candidate sp500 obs = Aligned a"
  let ?D = "date ` set sp500"
  let ?M = "?D - date ` set obs"
  have ok: "\<not> (\<exists>d\<in>?M. \<forall>ob\<in>set obs. \<not> date ob \<le> d)"
    using a unfolding align_candidate_cases[of sp500 obs] by (auto split: if_splits)
  have fd: "filled_dates a = sorted_list_of_set ?M"
    and ad: "al_dates a = sorted_list_of_set ?D"
    and ov: "al_other_vals a = map (carried obs) (sorted_list_of_set ?D)"
    using a unfolding align_candidate_cases[of sp500 obs] by (auto split: if_splits)
  have 1: "length (al_other_vals a) = length (al_dates a)" unfolding ad ov by simp
  have 2: "set (filled_dates a) \<subseteq> set (al_dates a)" unfolding ad fd by auto
  have 3: "\<forall>i<length (al_dates a). al_dates a ! i \<in> set (filled_dates a) \<longrightarrow>
          (\<exists>ob\<in>set obs. date ob \<le> al_dates a ! i
             \<and> (\<forall>ob'\<in>set obs. date ob' \<le> al_dates a ! i \<longrightarrow> date ob' \<le> date ob)
             \<and> al_other_vals a ! i = val ob)"
  proof (intro allI impI)
    fix i assume i: "i < length (al_dates a)" and f: "al_dates a ! i \<in> set (filled_dates a)"
    let ?d = "al_dates a ! i"
    have dM: "?d \<in> ?M" using f unfolding fd by simp
    then have notin: "?d \<notin> date ` set obs" by simp
    have ex: "\<exists>ob\<in>set obs. date ob \<le> ?d" using ok dM by blast
    have "al_other_vals a ! i = carried obs ?d" using i unfolding ov ad by simp
    with carried_locf[OF ex notin] show "\<exists>ob\<in>set obs. date ob \<le> ?d
             \<and> (\<forall>ob'\<in>set obs. date ob' \<le> ?d \<longrightarrow> date ob' \<le> date ob)
             \<and> al_other_vals a ! i = val ob" by simp
  qed
  from 1 2 3 show ?thesis by blast
qed

theorem filled_value_is_carried_forward_witness:
  "align_candidate ex_sp500 ex_obs_gap = Aligned ex_aligned_gap
   \<and> 6 < length (al_dates ex_aligned_gap)
   \<and> al_dates ex_aligned_gap ! 6 \<in> set (filled_dates ex_aligned_gap)
   \<and> (\<exists>ob\<in>set ex_obs_gap. date ob \<le> al_dates ex_aligned_gap ! 6
         \<and> (\<forall>ob'\<in>set ex_obs_gap. date ob' \<le> al_dates ex_aligned_gap ! 6
                \<longrightarrow> date ob' \<le> date ob)
         \<and> al_other_vals ex_aligned_gap ! 6 = val ob)"
proof -
  have h1: "6 < length (al_dates ex_aligned_gap)" by code_simp
  have h2: "al_dates ex_aligned_gap ! 6 \<in> set (filled_dates ex_aligned_gap)" by code_simp
  from filled_value_is_carried_forward[OF ex_gap_aligned] h1 h2
  have "\<exists>ob\<in>set ex_obs_gap. date ob \<le> al_dates ex_aligned_gap ! 6
         \<and> (\<forall>ob'\<in>set ex_obs_gap. date ob' \<le> al_dates ex_aligned_gap ! 6
                \<longrightarrow> date ob' \<le> date ob)
         \<and> al_other_vals ex_aligned_gap ! 6 = val ob" by blast
  with ex_gap_aligned h1 h2 show ?thesis by blast
qed

text \<open>
  Claim C10. In an aligned candidate, and so in every accepted one, the value at a
  benchmark date that the candidate observed is the observed value (the one listed last,
  should the date occur twice; with unique dates, the value of the one observation of
  that date). The filled dates are exactly the benchmark dates the candidate did not
  observe, and there are none when it observed every benchmark date.
\<close>

theorem real_observations_never_overwritten:
  "align_candidate sp500 obs = Aligned a \<Longrightarrow>
     al_dates a = sorted_list_of_set (date ` set sp500)
     \<and> length (al_other_vals a) = length (al_dates a)
     \<and> (\<forall>i<length (al_dates a). al_dates a ! i \<in> date ` set obs \<longrightarrow>
          al_other_vals a ! i = val (last (filter (\<lambda>ob. date ob = al_dates a ! i) obs)))
     \<and> (distinct (map date obs) \<longrightarrow>
          (\<forall>i<length (al_dates a). \<forall>ob\<in>set obs. date ob = al_dates a ! i \<longrightarrow>
             al_other_vals a ! i = val ob))
     \<and> set (filled_dates a) = {d \<in> date ` set sp500. d \<notin> date ` set obs}
     \<and> (date ` set sp500 \<subseteq> date ` set obs \<longrightarrow> filled_dates a = [])"
proof -
  assume a: "align_candidate sp500 obs = Aligned a"
  let ?D = "date ` set sp500"
  let ?M = "?D - date ` set obs"
  have fd: "filled_dates a = sorted_list_of_set ?M"
    and ad: "al_dates a = sorted_list_of_set ?D"
    and ov: "al_other_vals a = map (carried obs) (sorted_list_of_set ?D)"
    using a unfolding align_candidate_cases[of sp500 obs] by (auto split: if_splits)
  have 1: "length (al_other_vals a) = length (al_dates a)" unfolding ad ov by simp
  have 2: "\<forall>i<length (al_dates a). al_dates a ! i \<in> date ` set obs \<longrightarrow>
          al_other_vals a ! i = val (last (filter (\<lambda>ob. date ob = al_dates a ! i) obs))"
    unfolding ov ad by (simp add: carried_def)
  have 3: "distinct (map date obs) \<longrightarrow>
          (\<forall>i<length (al_dates a). \<forall>ob\<in>set obs. date ob = al_dates a ! i \<longrightarrow>
             al_other_vals a ! i = val ob)"
  proof (intro impI allI ballI)
    fix i ob assume dd: "distinct (map date obs)" and i: "i < length (al_dates a)"
      and ob: "ob \<in> set obs" and e: "date ob = al_dates a ! i"
    have "filter (\<lambda>x. date x = date ob) obs = [ob]"
      using dd ob by (rule filter_key_unique)
    moreover have "al_dates a ! i \<in> date ` set obs" using ob e by force
    ultimately show "al_other_vals a ! i = val ob" using 2 i e by simp
  qed
  have 4: "set (filled_dates a) = {d \<in> ?D. d \<notin> date ` set obs}" unfolding fd by auto
  have 5: "?D \<subseteq> date ` set obs \<longrightarrow> filled_dates a = []"
  proof
    assume "?D \<subseteq> date ` set obs"
    then have "?M = {}" by auto
    then show "filled_dates a = []" unfolding fd by simp
  qed
  from ad 1 2 3 4 5 show ?thesis by blast
qed

theorem real_observations_never_overwritten_witness:
  "align_candidate ex_sp500 ex_obs_gap = Aligned ex_aligned_gap
   \<and> distinct (map date ex_obs_gap)
   \<and> 0 < length (al_dates ex_aligned_gap)
   \<and> hd ex_obs_gap \<in> set ex_obs_gap \<and> date (hd ex_obs_gap) = al_dates ex_aligned_gap ! 0
   \<and> al_other_vals ex_aligned_gap ! 0 = val (hd ex_obs_gap)
   \<and> set (filled_dates ex_aligned_gap)
       = {d \<in> date ` set ex_sp500. d \<notin> date ` set ex_obs_gap}"
proof -
  have h1: "distinct (map date ex_obs_gap)" by code_simp
  have h2: "0 < length (al_dates ex_aligned_gap)" by code_simp
  have h3: "hd ex_obs_gap \<in> set ex_obs_gap" by code_simp
  have h4: "date (hd ex_obs_gap) = al_dates ex_aligned_gap ! 0" by code_simp
  from real_observations_never_overwritten[OF ex_gap_aligned] h1 h2 h3 h4
  have 1: "al_other_vals ex_aligned_gap ! 0 = val (hd ex_obs_gap)" by blast
  from real_observations_never_overwritten[OF ex_gap_aligned]
  have 2: "set (filled_dates ex_aligned_gap)
             = {d \<in> date ` set ex_sp500. d \<notin> date ` set ex_obs_gap}" by blast
  from ex_gap_aligned h1 h2 h3 h4 1 2 show ?thesis by blast
qed

end
